theory Spec2Isabelle
  imports Main "HOL-Library.AList"
begin

section \<open>Values, errors and the external collaborators\<close>

text \<open>
  The development embeds the scan pipeline of the package manager: the pending-work queue
  \<open>EEQueue\<close>, the classes \<open>Package\<close> and \<open>Repository\<close>, and the listener wiring of
  \<open>PackageManager\<close>. Asynchronous functions are modelled by their sequential meaning: every
  \<open>await\<close> runs the awaited operation to completion, a rejected promise is an error value.
\<close>

text \<open>
  The fields \<open>_rawConfigContents\<close>, \<open>name\<close> and \<open>guid\<close> of a Package are declared but never
  initialised, so they start out \<open>undefined\<close>; the source compares against \<open>null\<close> as well.
\<close>

datatype jsval = Undefined | Null | Str string

fun truthy :: "jsval \<Rightarrow> bool" where
  "truthy (Str s) = (s \<noteq> [])"
| "truthy Undefined = False"
| "truthy Null = False"

text \<open>
  Everything that can be thrown, or that a promise can be rejected with, in the modelled code.
  \<open>RejectedFalse\<close> is the value \<open>false\<close> that \<open>doesPathExist\<close> passes to \<open>reject\<close>;
  \<open>RangeError\<close> is the engine's answer to an exhausted call stack; \<open>UnhandledError\<close> is the
  error that an event emitter makes up when an \<open>error\<close> signal that nobody listens to
  carries no error object.
\<close>

datatype js_error =
    FsError
  | RejectedFalse
  | TypeError
  | SyntaxError
  | RangeError
  | PackageMissingRequirementError
  | RepositoryNotUniquePackageError
  | UnhandledError

subsection \<open>Regular expressions\<close>

text \<open>
  The regular-expression engine belongs to the language runtime. It is a parameter of the
  model: \<open>compiles src\<close> tells whether \<open>new RegExp(src)\<close> succeeds, and
  \<open>exec ignoreCase src subject\<close> is the outcome of \<open>subject.match(new RegExp(src, flags))\<close>:
  no match, or a match together with its first capture group (\<open>None\<close> when \<open>matches[1]\<close> is
  \<open>undefined\<close>).
\<close>

datatype rx_match = NoMatch | Match "string option"

record regexp =
  compiles :: "string \<Rightarrow> bool"
  exec :: "bool \<Rightarrow> string \<Rightarrow> string \<Rightarrow> rx_match"

subsection \<open>Strings\<close>

text \<open>
  A string is held as the bytes of its UTF-8 encoding. \<open>white_space\<close> lists the code points
  that \<open>String.prototype.trim\<close> removes, the white space and the line terminators of the
  language: U+0009 to U+000D, U+0020, U+00A0, U+1680, U+2000 to U+200A, U+2028, U+2029,
  U+202F, U+205F, U+3000 and U+FEFF. None of these encodings ends another character, so the
  end of a string is trimmed on its reversal.
\<close>

definition white_space :: "string list" where
  "white_space =
     [[CHR 0x09], [CHR 0x0A], [CHR 0x0B], [CHR 0x0C], [CHR 0x0D], [CHR 0x20],
      [CHR 0xC2, CHR 0xA0],
      [CHR 0xE1, CHR 0x9A, CHR 0x80],
      [CHR 0xE2, CHR 0x80, CHR 0x80], [CHR 0xE2, CHR 0x80, CHR 0x81],
      [CHR 0xE2, CHR 0x80, CHR 0x82], [CHR 0xE2, CHR 0x80, CHR 0x83],
      [CHR 0xE2, CHR 0x80, CHR 0x84], [CHR 0xE2, CHR 0x80, CHR 0x85],
      [CHR 0xE2, CHR 0x80, CHR 0x86], [CHR 0xE2, CHR 0x80, CHR 0x87],
      [CHR 0xE2, CHR 0x80, CHR 0x88], [CHR 0xE2, CHR 0x80, CHR 0x89],
      [CHR 0xE2, CHR 0x80, CHR 0x8A],
      [CHR 0xE2, CHR 0x80, CHR 0xA8], [CHR 0xE2, CHR 0x80, CHR 0xA9],
      [CHR 0xE2, CHR 0x80, CHR 0xAF],
      [CHR 0xE2, CHR 0x81, CHR 0x9F],
      [CHR 0xE3, CHR 0x80, CHR 0x80],
      [CHR 0xEF, CHR 0xBB, CHR 0xBF]]"

text \<open>\<open>strip ws s\<close> removes from the front of \<open>s\<close> every leading occurrence of a member of \<open>ws\<close>.\<close>

function strip :: "string list \<Rightarrow> string \<Rightarrow> string" where
  "strip ws s =
     (case find (\<lambda>w. w \<noteq> [] \<and> take (length w) s = w) ws of
        None \<Rightarrow> s
      | Some w \<Rightarrow> strip ws (drop (length w) s))"
  by pat_completeness auto
termination
proof (relation "measure (\<lambda>(ws, s). length s)", goal_cases)
  case 1
  show ?case by simp
next
  case (2 ws s w)
  then have "w \<noteq> []" and "take (length w) s = w"
    by (auto simp: find_Some_iff)
  then have "s \<noteq> []" and "0 < length w"
    by auto
  then show ?case by simp
qed

declare strip.simps [simp del]

definition trim :: "string \<Rightarrow> string" where
  "trim s = rev (strip (map rev white_space) (rev (strip white_space s)))"

text \<open>\<open>s.replace(pat, "")\<close> for a string pattern: the first occurrence of \<open>pat\<close> is removed.\<close>

fun replace_first :: "string \<Rightarrow> string \<Rightarrow> string" where
  "replace_first pat [] = []"
| "replace_first pat (c # cs) =
     (if take (length pat) (c # cs) = pat then drop (length pat) (c # cs)
      else c # replace_first pat cs)"

subsection \<open>The filesystem\<close>

text \<open>
  A snapshot of the filesystem is a finite tree. An absolute, normalised path is the list of
  its components; \<open>render\<close> gives the string the source works with.
\<close>

type_synonym fpath = "string list"

datatype node =
    File string
  | Unreadable
  | Special
  | Missing
  | Dir "(string \<times> node) list"
  | DirDenied

text \<open>
  \<open>File text\<close> is a regular file, \<open>Unreadable\<close> a regular file whose read fails, \<open>Special\<close>
  an entry that is neither a file nor a directory, \<open>Missing\<close> a path for which \<open>stat\<close> fails,
  \<open>Dir entries\<close> a directory with its listing, \<open>DirDenied\<close> a directory whose listing fails.
\<close>

definition render :: "fpath \<Rightarrow> string" where
  "render p = (if p = [] then ''/'' else concat (map (\<lambda>c. ''/'' @ c) p))"

definition resolve :: "fpath \<Rightarrow> string \<Rightarrow> fpath" where
  "resolve directory file = directory @ [file]"

definition basename :: "fpath \<Rightarrow> string" where
  "basename p = (if p = [] then [] else last p)"

definition dirname :: "fpath \<Rightarrow> fpath" where
  "dirname p = butlast p"

definition join :: "fpath \<Rightarrow> string \<Rightarrow> fpath" where
  "join directory file = (if file = [] then directory else directory @ [file])"

fun node_at :: "node \<Rightarrow> fpath \<Rightarrow> node" where
  "node_at n [] = n"
| "node_at (Dir entries) (c # cs) =
     (case map_of entries c of None \<Rightarrow> Missing | Some n \<Rightarrow> node_at n cs)"
| "node_at n (c # cs) = Missing"

text \<open>\<open>isDirectory\<close>: \<open>reject(err)\<close> when \<open>stat\<close> fails, else \<open>stats.isDirectory()\<close>.\<close>

fun isDirectory :: "node \<Rightarrow> js_error + bool" where
  "isDirectory Missing = Inl FsError"
| "isDirectory (Dir entries) = Inr True"
| "isDirectory DirDenied = Inr True"
| "isDirectory n = Inr False"

text \<open>
  \<open>doesPathExist\<close>: \<open>if (err) reject(false); resolve(stats && stats.isFile())\<close>. The promise
  is settled by the first call, so a failing \<open>stat\<close> rejects it with \<open>false\<close>.
\<close>

fun doesPathExist :: "node \<Rightarrow> js_error + bool" where
  "doesPathExist Missing = Inl RejectedFalse"
| "doesPathExist (File text) = Inr True"
| "doesPathExist Unreadable = Inr True"
| "doesPathExist n = Inr False"

fun readdirAsync :: "node \<Rightarrow> js_error + (string \<times> node) list" where
  "readdirAsync (Dir entries) = Inr entries"
| "readdirAsync n = Inl FsError"

fun readFileAsync :: "node \<Rightarrow> js_error + string" where
  "readFileAsync (File text) = Inr text"
| "readFileAsync n = Inl FsError"

section \<open>Package\<close>

text \<open>
  The listeners that the code itself attaches: those of \<open>Repository\<close> (on its packages and on
  its queue) and those of \<open>PackageManager\<close> (on its repositories). \<open>Observer\<close> stands for a
  listener that client code attaches to a Repository: it returns normally and leaves the
  objects alone.
\<close>

datatype repository_listener = OnPkgError | OnPkgCreated | OnWalkQueueEmptied

datatype manager_listener = OnRepoError | OnRepoReady | OnPackageAdded | Observer

record package =
  rawConfigContents :: jsval
  absoluteDirPath :: fpath
  configFile :: string
  hasWalked :: bool
  lastWalk :: "nat option"
  path :: jsval
  name :: jsval
  guid :: jsval
  items :: "string list option"
  props :: "(string \<times> jsval) list"
  plisteners :: "(string \<times> repository_listener) list"

text \<open>
  \<open>props\<close> holds the properties that \<open>_parse\<close> creates on the object beyond the declared
  ones; \<open>plisteners\<close> is the listener table of the underlying event emitter.
\<close>

definition new_Package :: "fpath \<Rightarrow> fpath \<Rightarrow> package" where
  "new_Package repoPath packagePath =
     \<lparr> rawConfigContents = Undefined,
       absoluteDirPath = dirname packagePath,
       configFile = basename packagePath,
       hasWalked = False,
       lastWalk = None,
       path = Str (replace_first (render repoPath) (render (dirname packagePath))),
       name = Undefined,
       guid = Undefined,
       items = None,
       props = [],
       plisteners = [] \<rparr>"

definition isValid :: "package \<Rightarrow> bool" where
  "isValid p = (if truthy (guid p) \<and> truthy (name p) then True else False)"

subsection \<open>Field extraction\<close>

datatype rule = Pattern string | Group "(string \<times> rule) list"

type_synonym rules = "(string \<times> rule) list"

text \<open>
  \<open>this[property] = value\<close>. The keys \<open>name\<close>, \<open>guid\<close> and \<open>path\<close> are declared fields; any
  other key creates or overwrites a property of its own. Keys that name another member of the
  object (\<open>package_members\<close>) would replace that member; rule sets are required to avoid
  them (\<open>rules_ok\<close>).
\<close>

definition set_property :: "package \<Rightarrow> string \<Rightarrow> jsval \<Rightarrow> package" where
  "set_property p property v =
     (if property = ''name'' then p\<lparr>name := v\<rparr>
      else if property = ''guid'' then p\<lparr>guid := v\<rparr>
      else if property = ''path'' then p\<lparr>path := v\<rparr>
      else p\<lparr>props := AList.update property v (props p)\<rparr>)"

definition package_members :: "string list" where
  "package_members =
     [''_rawConfigContents'', ''_absoluteDirPath'', ''_configFile'', ''_hasWalked'',
      ''_lastWalk'', ''items'', ''isValid'', ''lastWalk'', ''walk'', ''_parse'',
      ''_search'', ''_readConfigFile'', ''constructor'', ''__proto__'', ''emit'', ''on'',
      ''once'', ''addListener'', ''removeListener'', ''removeAllListeners'', ''listeners'',
      ''listenerCount'', ''setMaxListeners'', ''getMaxListeners'', ''domain'', ''_events'',
      ''_eventsCount'', ''_maxListeners'']"

definition rules_ok :: "rules \<Rightarrow> bool" where
  "rules_ok rs = list_all (\<lambda>(property, r). property \<notin> set package_members) rs"

text \<open>
  \<open>_parse\<close>. The recursive call is made before the first \<open>await\<close> of the body, so each level
  of recursion takes a frame of the call stack; \<open>depth\<close> is the number of frames left, and a
  call with none left is answered by \<open>RangeError\<close>. \<open>parse_loop\<close> is the \<open>for ... in\<close> loop
  over the remaining properties; \<open>rs\<close> stays the mapping that \<open>_parse\<close> was called with.
\<close>

fun parse :: "regexp \<Rightarrow> nat \<Rightarrow> rules \<Rightarrow> package \<Rightarrow> package \<times> js_error option"
and parse_loop :: "regexp \<Rightarrow> nat \<Rightarrow> rules \<Rightarrow> rules \<Rightarrow> package \<Rightarrow> package \<times> js_error option"
where
  "parse re 0 rs p = (p, Some RangeError)"
| "parse re (Suc depth) rs p =
     (if rawConfigContents p = Null then (p, None) else parse_loop re depth rs rs p)"
| "parse_loop re depth rs [] p = (p, None)"
| "parse_loop re depth rs ((property, Group g) # rest) p =
     (case parse re depth rs p of
        (p', Some e) \<Rightarrow> (p', Some e)
      | (p', None) \<Rightarrow> parse_loop re depth rs rest (set_property p' property Undefined))"
| "parse_loop re depth rs ((property, Pattern src) # rest) p =
     (if \<not> compiles re src then (p, Some SyntaxError)
      else case rawConfigContents p of
        Str text \<Rightarrow>
          (case exec re True src text of
             NoMatch \<Rightarrow> parse_loop re depth rs rest p
           | Match None \<Rightarrow> (p, Some TypeError)
           | Match (Some g1) \<Rightarrow> parse_loop re depth rs rest (set_property p property (Str (trim g1))))
      | _ \<Rightarrow> (p, Some TypeError))"

subsection \<open>File listing\<close>

text \<open>
  \<open>_search\<close>, called on a directory whose node is \<open>n\<close>. Every call, the recursive ones
  included, starts with \<open>this.items = []\<close>. An exception inside the \<open>try\<close> block is logged
  and ends the call. \<open>search_loop\<close> is the loop over the listing.
\<close>

lemma readdirAsync_size:
  "readdirAsync n = Inr files \<Longrightarrow> size_list (size_prod (\<lambda>_. 0) size) files < size n"
  by (cases n) auto

function search :: "regexp \<Rightarrow> fpath \<Rightarrow> node \<Rightarrow> package \<Rightarrow> package"
and search_loop :: "regexp \<Rightarrow> fpath \<Rightarrow> (string \<times> node) list \<Rightarrow> package \<Rightarrow> package"
where
  "search re directory n p =
     (case readdirAsync n of
        Inl err \<Rightarrow> p\<lparr>items := Some []\<rparr>
      | Inr files \<Rightarrow> search_loop re directory files (p\<lparr>items := Some []\<rparr>))"
| "search_loop re directory [] p = p"
| "search_loop re directory ((file, n) # rest) p =
     (let fullPath = resolve directory file in
      case isDirectory n of
        Inl err \<Rightarrow> p
      | Inr True \<Rightarrow> search_loop re directory rest (search re fullPath n p)
      | Inr False \<Rightarrow>
          (if \<not> compiles re ''.+'' then p
           else case exec re False ''.+'' (render fullPath) of
             NoMatch \<Rightarrow> search_loop re directory rest p
           | Match g \<Rightarrow>
               search_loop re directory rest
                 (p\<lparr>items := map_option
                        (\<lambda>xs. xs @ [replace_first (render (absoluteDirPath p)) (render fullPath)])
                        (items p)\<rparr>)))"
  by pat_completeness auto

termination
  by (relation "measure (\<lambda>x. case x of
         Inl (re, d, n, p) \<Rightarrow> size n
       | Inr (re, d, files, p) \<Rightarrow> size_list (size_prod (\<lambda>_. 0) size) files)")
     (auto dest: readdirAsync_size)

subsection \<open>Reading the metadata file\<close>

definition readConfigFile :: "node \<Rightarrow> package \<Rightarrow> package \<times> js_error option" where
  "readConfigFile fs p =
     (let absolutePath = join (absoluteDirPath p) (configFile p) in
      case doesPathExist (node_at fs absolutePath) of
        Inl err \<Rightarrow> (p, Some err)
      | Inr doesPathExists \<Rightarrow>
          if \<not> truthy (rawConfigContents p) \<and> doesPathExists
          then (case readFileAsync (node_at fs absolutePath) of
                  Inl err \<Rightarrow> (p, Some err)
                | Inr text \<Rightarrow> (p\<lparr>rawConfigContents := Str text\<rparr>, None))
          else (p, None))"

section \<open>Signals\<close>

text \<open>
  Every call of \<open>emit\<close> is recorded in a trace, with its emitter, the event name and the
  arguments, whether or not the call returns. The emitters are those of Node: a call of
  \<open>emit\<close> runs the listeners of the event in the order of their registration, an exception
  of a listener ends the call and is passed on to the caller of \<open>emit\<close>, and an \<open>error\<close>
  signal that has no listener is thrown: the first argument itself when it is an error
  object, a made-up error otherwise.
\<close>

datatype emitter = EPackage nat | EQueue | ERepository | EManager

datatype arg =
    AUndefined
  | AErr js_error
  | APkg nat
  | APath fpath
  | ARepo
  | AMgr
  | AObj "(string \<times> arg) list"

type_synonym signal = "emitter \<times> string \<times> arg list"

definition nth_arg :: "arg list \<Rightarrow> nat \<Rightarrow> arg" where
  "nth_arg args i = (if i < length args then args ! i else AUndefined)"

definition unhandled :: "string \<Rightarrow> string list \<Rightarrow> bool" where
  "unhandled event listened = (event = ''error'' \<and> ''error'' \<notin> set listened)"

fun thrown :: "arg \<Rightarrow> js_error" where
  "thrown (AErr e) = (if e = RejectedFalse then UnhandledError else e)"
| "thrown a = UnhandledError"

definition raised :: "arg list \<Rightarrow> js_error" where
  "raised args = thrown (nth_arg args 0)"

section \<open>Repository\<close>

record eequeue =
  queue :: "fpath list"
  qonce :: "(string \<times> repository_listener) list"

record repoPackageDefinition =
  configFileName :: string
  configParseRules :: rules
  ignore :: "string list"

record repoSettings =
  opt_name :: string
  opt_dir :: fpath
  opt_ignore :: "string list"
  opt_packageDefinition :: repoPackageDefinition

text \<open>
  The state of one Repository. Next to the fields of the class it holds the listener table of
  its event emitter (\<open>listeners\<close>), the Package objects it has created (\<open>heap\<close>, a Package is
  referred to by its index), the trace of signals and a logical clock that stands for
  \<open>new Date\<close>. The index \<open>packages\<close> and the list \<open>invalidPackages\<close> hold references.
  The trace holds the signals of the Repository, of its queue and of its packages, and also
  what the listeners of a manager emit in turn (emitter \<open>EManager\<close>). Those listeners are
  bound to the manager, whose own emitter they call: \<open>manager_events\<close> lists the events
  for which client code has attached a listener to the manager. Such a listener is an
  observer, like \<open>Observer\<close> on a Repository.
\<close>

record repository =
  hasCompletedScan :: bool
  walkQueue :: eequeue
  repo_name :: string
  lastscan :: "nat option"
  dir :: fpath
  packageDefinition :: repoPackageDefinition
  packages :: "(string \<times> nat) list"
  invalidPackages :: "nat list"
  listeners :: "(string \<times> manager_listener) list"
  manager_events :: "string list"
  heap :: "package list"
  trace :: "signal list"
  clock :: nat

definition new_Repository :: "repoSettings \<Rightarrow> repository" where
  "new_Repository options =
     \<lparr> hasCompletedScan = False,
       walkQueue = \<lparr> queue = [], qonce = [] \<rparr>,
       repo_name = opt_name options,
       lastscan = None,
       dir = opt_dir options,
       packageDefinition = opt_packageDefinition options,
       packages = [],
       invalidPackages = [],
       listeners = [],
       manager_events = [],
       heap = [],
       trace = [],
       clock = 0 \<rparr>"

definition log :: "signal \<Rightarrow> repository \<Rightarrow> repository" where
  "log s r = r\<lparr>trace := trace r @ [s]\<rparr>"

text \<open>
  The listeners of \<open>event\<close> among \<open>ls\<close> are run one after the other; the first exception
  ends the run.
\<close>

fun dispatch ::
  "('l \<Rightarrow> arg list \<Rightarrow> repository \<Rightarrow> repository \<times> js_error option) \<Rightarrow> string \<Rightarrow> arg list \<Rightarrow>
   (string \<times> 'l) list \<Rightarrow> repository \<Rightarrow> repository \<times> js_error option" where
  "dispatch run event args [] r = (r, None)"
| "dispatch run event args ((e, l) # ls) r =
     (if e = event
      then (case run l args r of
              (r', Some err) \<Rightarrow> (r', Some err)
            | (r', None) \<Rightarrow> dispatch run event args ls r')
      else dispatch run event args ls r)"

subsection \<open>The listeners of PackageManager\<close>

definition manager_emit :: "string \<Rightarrow> arg list \<Rightarrow> repository \<Rightarrow> repository \<times> js_error option" where
  "manager_emit event args r =
     (let r1 = log (EManager, event, args) r
      in if unhandled event (manager_events r) then (r1, Some (raised args)) else (r1, None))"

definition onRepoReady :: "arg list \<Rightarrow> repository \<Rightarrow> repository \<times> js_error option" where
  "onRepoReady args r =
     manager_emit ''repoReady'' [AObj [(''manager'', AMgr), (''repository'', nth_arg args 0)]] r"

definition onRepoError :: "arg list \<Rightarrow> repository \<Rightarrow> repository \<times> js_error option" where
  "onRepoError args r = manager_emit ''error'' [nth_arg args 0] r"

definition onPackageAdded :: "arg list \<Rightarrow> repository \<Rightarrow> repository \<times> js_error option" where
  "onPackageAdded args r =
     (let details = (case nth_arg args 0 of
                       AUndefined \<Rightarrow> AObj [(''manager'', AMgr)]
                     | AObj kvs \<Rightarrow> AObj (AList.update ''manager'' AMgr kvs)
                     | a \<Rightarrow> a)
      in manager_emit ''packageAdded'' [details] r)"

fun run_manager_listener ::
  "manager_listener \<Rightarrow> arg list \<Rightarrow> repository \<Rightarrow> repository \<times> js_error option" where
  "run_manager_listener OnRepoError args r = onRepoError args r"
| "run_manager_listener OnRepoReady args r = onRepoReady args r"
| "run_manager_listener OnPackageAdded args r = onPackageAdded args r"
| "run_manager_listener Observer args r = (r, None)"

definition repo_emit :: "string \<Rightarrow> arg list \<Rightarrow> repository \<Rightarrow> repository \<times> js_error option" where
  "repo_emit event args r =
     (let r1 = log (ERepository, event, args) r
      in if unhandled event (map fst (listeners r)) then (r1, Some (raised args))
         else dispatch run_manager_listener event args (listeners r) r1)"

subsection \<open>The listeners of Repository\<close>

text \<open>
  \<open>packages\<close> is a plain object used as a hash table: a lookup also finds what the object
  inherits from \<open>Object.prototype\<close>, all of it truthy. A key is the string its value converts to.
\<close>

definition object_prototype_members :: "string list" where
  "object_prototype_members =
     [''constructor'', ''__proto__'', ''hasOwnProperty'', ''isPrototypeOf'',
      ''propertyIsEnumerable'', ''toLocaleString'', ''toString'', ''valueOf'',
      ''__defineGetter__'', ''__defineSetter__'', ''__lookupGetter__'', ''__lookupSetter__'']"

definition has_truthy_entry :: "(string \<times> nat) list \<Rightarrow> string \<Rightarrow> bool" where
  "has_truthy_entry table key =
     (map_of table key \<noteq> None \<or> key \<in> set object_prototype_members)"

fun to_key :: "jsval \<Rightarrow> string" where
  "to_key (Str s) = s"
| "to_key Undefined = ''undefined''"
| "to_key Null = ''null''"

text \<open>
  \<open>_addPkg\<close>. Both branches end with an emit of the Repository; an exception of that emit
  is the exception of \<open>_addPkg\<close>.
\<close>

definition addPkg :: "nat \<Rightarrow> repository \<Rightarrow> repository \<times> js_error option" where
  "addPkg pkg r =
     (if has_truthy_entry (packages r) (to_key (guid (heap r ! pkg)))
      then repo_emit ''error'' [AErr RepositoryNotUniquePackageError, APkg pkg]
             (r\<lparr>invalidPackages := invalidPackages r @ [pkg]\<rparr>)
      else repo_emit ''packageAdded'' [AObj [(''repository'', ARepo), (''package'', APkg pkg)]]
             (r\<lparr>packages := AList.update (to_key (guid (heap r ! pkg))) pkg (packages r)\<rparr>))"

text \<open>
  The two listeners below are attached to Package objects only, and a Package passes itself
  to them; on any other argument they are modelled as doing nothing.
\<close>

definition onPkgCreated :: "arg list \<Rightarrow> repository \<Rightarrow> repository \<times> js_error option" where
  "onPkgCreated args r = (case nth_arg args 0 of APkg pkg \<Rightarrow> addPkg pkg r | _ \<Rightarrow> (r, None))"

definition onPkgError :: "arg list \<Rightarrow> repository \<Rightarrow> repository \<times> js_error option" where
  "onPkgError args r =
     (case nth_arg args 1 of
        APkg pkg \<Rightarrow>
          repo_emit ''error'' [nth_arg args 0]
            (if \<not> isValid (heap r ! pkg) then r\<lparr>invalidPackages := invalidPackages r @ [pkg]\<rparr>
             else r)
      | _ \<Rightarrow> (r, None))"

text \<open>
  \<open>_onWalkQueueEmptied\<close> is an asynchronous function without an \<open>await\<close>: a call runs the
  body at once. An exception of the emit of \<open>ready\<close> ends the body, so the two assignments
  are not made, and rejects the promise that the call returns.
\<close>

definition onWalkQueueEmptied :: "repository \<Rightarrow> repository \<times> js_error option" where
  "onWalkQueueEmptied r =
     (case (if \<not> hasCompletedScan r then repo_emit ''ready'' [ARepo] r else (r, None)) of
        (r1, Some err) \<Rightarrow> (r1, Some err)
      | (r1, None) \<Rightarrow>
          (r1\<lparr>hasCompletedScan := True, lastscan := Some (clock r1), clock := Suc (clock r1)\<rparr>,
           None))"

text \<open>
  A listener as the emitter calls it. The emitter that calls \<open>_onWalkQueueEmptied\<close> gets a
  promise back and never an exception; nobody looks at that promise.
\<close>

fun run_repository_listener ::
  "repository_listener \<Rightarrow> arg list \<Rightarrow> repository \<Rightarrow> repository \<times> js_error option" where
  "run_repository_listener OnPkgError args r = onPkgError args r"
| "run_repository_listener OnPkgCreated args r = onPkgCreated args r"
| "run_repository_listener OnWalkQueueEmptied args r = (fst (onWalkQueueEmptied r), None)"

subsection \<open>Emitting from a Package and from the queue\<close>

definition pkg_emit :: "nat \<Rightarrow> string \<Rightarrow> arg list \<Rightarrow> repository \<Rightarrow> repository \<times> js_error option" where
  "pkg_emit pkg event args r =
     (let ls = plisteners (heap r ! pkg);
          r1 = log (EPackage pkg, event, args) r
      in if unhandled event (map fst ls) then (r1, Some (raised args))
         else dispatch run_repository_listener event args ls r1)"

text \<open>
  The queue's listeners are all registered with \<open>once\<close>: an emit removes the listeners of
  its event and calls them. Node removes each of them at its call; that is the same, as no
  listener throws on a signal of the queue (\<open>queue_emit_returns\<close> below) and none touches
  the listener table of the queue.
\<close>

definition queue_once :: "string \<Rightarrow> repository_listener \<Rightarrow> repository \<Rightarrow> repository" where
  "queue_once event l r = r\<lparr>walkQueue := (walkQueue r)\<lparr>qonce := qonce (walkQueue r) @ [(event, l)]\<rparr>\<rparr>"

definition queue_emit :: "string \<Rightarrow> arg list \<Rightarrow> repository \<Rightarrow> repository \<times> js_error option" where
  "queue_emit event args r =
     (let ls = qonce (walkQueue r);
          r1 = log (EQueue, event, args) r;
          r2 = r1\<lparr>walkQueue := (walkQueue r1)\<lparr>qonce := filter (\<lambda>(e, l). e \<noteq> event) ls\<rparr>\<rparr>
      in if unhandled event (map fst ls) then (r1, Some (raised args))
         else dispatch run_repository_listener event args ls r2)"

definition queue_push :: "fpath \<Rightarrow> repository \<Rightarrow> repository \<times> js_error option" where
  "queue_push item r =
     queue_emit ''enqueued'' [APath item]
       (r\<lparr>walkQueue := (walkQueue r)\<lparr>queue := queue (walkQueue r) @ [item]\<rparr>\<rparr>)"

text \<open>
  \<open>next\<close> gives the entry it has taken from the queue, the state, and the exception of one
  of its emits if there is one.
\<close>

definition queue_next :: "repository \<Rightarrow> fpath option \<times> repository \<times> js_error option" where
  "queue_next r =
     (let item = (case queue (walkQueue r) of [] \<Rightarrow> None | x # xs \<Rightarrow> Some x);
          r1 = r\<lparr>walkQueue := (walkQueue r)\<lparr>queue := tl (queue (walkQueue r))\<rparr>\<rparr>
      in case queue_emit ''dequeued'' [] r1 of
           (r2, Some err) \<Rightarrow> (item, r2, Some err)
         | (r2, None) \<Rightarrow>
             (if queue (walkQueue r2) = []
              then (case queue_emit ''emptied'' [] r2 of (r3, res) \<Rightarrow> (item, r3, res))
              else (item, r2, None)))"

subsection \<open>Walking one package\<close>

definition store :: "nat \<Rightarrow> package \<Rightarrow> repository \<Rightarrow> repository" where
  "store pkg p r = r\<lparr>heap := (heap r)[pkg := p]\<rparr>"

definition walk_prepare :: "regexp \<Rightarrow> node \<Rightarrow> nat \<Rightarrow> rules \<Rightarrow> package \<Rightarrow> package \<times> js_error option" where
  "walk_prepare re fs depth rs p =
     (case readConfigFile fs p of
        (p1, Some e) \<Rightarrow> (p1, Some e)
      | (p1, None) \<Rightarrow>
          (case parse re depth rs p1 of
             (p2, Some e) \<Rightarrow> (p2, Some e)
           | (p2, None) \<Rightarrow>
               (search re (absoluteDirPath p2) (node_at fs (absoluteDirPath p2)) p2, None)))"

text \<open>
  \<open>walk_prepare\<close> is the first three statements of \<open>walk\<close>, which only touch the Package itself:
  \<open>_readConfigFile\<close>, \<open>_parse\<close> and \<open>_search\<close>, the first exception ending the walk. The
  Package is an object shared with the Repository's index, so \<open>walk\<close> writes every change
  back to the heap. An exception of one of the emits ends the walk where it is: after
  \<open>created\<close> or \<open>updated\<close> has thrown, \<open>_lastWalk\<close> is not set.
\<close>

definition walk :: "regexp \<Rightarrow> node \<Rightarrow> nat \<Rightarrow> rules \<Rightarrow> nat \<Rightarrow> repository \<Rightarrow> repository \<times> js_error option" where
  "walk re fs depth rs pkg r =
     (case walk_prepare re fs depth rs (heap r ! pkg) of
        (p, Some e) \<Rightarrow> (store pkg p r, Some e)
      | (p, None) \<Rightarrow>
          (let r1 = store pkg p r in
           if \<not> isValid p
           then pkg_emit pkg ''error'' [AErr PackageMissingRequirementError, APkg pkg] r1
           else
             (case (if hasWalked p then pkg_emit pkg ''updated'' [APkg pkg] r1
                    else pkg_emit pkg ''created'' [APkg pkg]
                           (store pkg (p\<lparr>hasWalked := True\<rparr>) r1)) of
                (r2, Some e) \<Rightarrow> (r2, Some e)
              | (r2, None) \<Rightarrow>
                  (r2\<lparr>heap := (heap r2)[pkg := (heap r2 ! pkg)\<lparr>lastWalk := Some (clock r2)\<rparr>],
                      clock := Suc (clock r2)\<rparr>, None))))"

definition walkPkgDir :: "regexp \<Rightarrow> node \<Rightarrow> nat \<Rightarrow> fpath \<Rightarrow> repository \<Rightarrow> repository \<times> js_error option" where
  "walkPkgDir re fs depth file r =
     (let repoPackage = (new_Package (dir r) file)
                          \<lparr>plisteners := [(''error'', OnPkgError), (''created'', OnPkgCreated)]\<rparr>;
          r1 = r\<lparr>heap := heap r @ [repoPackage]\<rparr>
      in walk re fs depth (configParseRules (packageDefinition r)) (length (heap r)) r1)"

subsection \<open>Scanning\<close>

definition filter_of :: "repository \<Rightarrow> string" where
  "filter_of r =
     (if configFileName (packageDefinition r) = [] then ''README.md''
      else configFileName (packageDefinition r))"

text \<open>
  \<open>_populateWalkQueue\<close>, called on a directory whose node is \<open>n\<close>. \<open>populate_loop\<close> is the
  body of its \<open>try\<close> block from the loop over the listing on: it gives the exception that
  ends the block, if there is one. The \<open>catch\<close> clause signals that exception as an error of
  the Repository; what this emit throws rejects the call, and so reaches the \<open>try\<close> block
  of the call one directory up. An unset or empty \<open>configFileName\<close> is the empty string.
\<close>

function populateWalkQueue ::
  "regexp \<Rightarrow> fpath \<Rightarrow> node \<Rightarrow> repository \<Rightarrow> repository \<times> js_error option"
and populate_loop ::
  "regexp \<Rightarrow> fpath \<Rightarrow> (string \<times> node) list \<Rightarrow> repository \<Rightarrow> repository \<times> js_error option"
where
  "populateWalkQueue re directory n r =
     (case (case readdirAsync n of
              Inl err \<Rightarrow> (r, Some err)
            | Inr files \<Rightarrow> populate_loop re directory files r) of
        (r', Some err) \<Rightarrow> repo_emit ''error'' [AErr err] r'
      | (r', None) \<Rightarrow> (r', None))"
| "populate_loop re directory [] r = (r, None)"
| "populate_loop re directory ((file, n) # rest) r =
     (let fullName = resolve directory file in
      case isDirectory n of
        Inl err \<Rightarrow> (r, Some err)
      | Inr True \<Rightarrow>
          (case populateWalkQueue re fullName n r of
             (r', Some err) \<Rightarrow> (r', Some err)
           | (r', None) \<Rightarrow> populate_loop re directory rest r')
      | Inr False \<Rightarrow>
          (if \<not> compiles re (filter_of r) then (r, Some SyntaxError)
           else case exec re False (filter_of r) (render fullName) of
             NoMatch \<Rightarrow> populate_loop re directory rest r
           | Match g \<Rightarrow>
               (case queue_push fullName r of
                  (r', Some err) \<Rightarrow> (r', Some err)
                | (r', None) \<Rightarrow> populate_loop re directory rest r')))"
  by pat_completeness auto
termination
  by (relation "measure (\<lambda>x. case x of
         Inl (re, d, n, r) \<Rightarrow> size n
       | Inr (re, d, files, r) \<Rightarrow> size_list (size_prod (\<lambda>_. 0) size) files)")
     (auto dest: readdirAsync_size)

declare populateWalkQueue.simps [simp del]

text \<open>None of the listeners touches the queue; this is what makes the drain loop terminate.\<close>

lemma walkQueue_log [simp]: "walkQueue (log s r) = walkQueue r"
  by (simp add: log_def)

lemma walkQueue_manager_emit [simp]: "walkQueue (fst (manager_emit event args r)) = walkQueue r"
  by (simp add: manager_emit_def Let_def)

lemma walkQueue_run_manager_listener [simp]:
  "walkQueue (fst (run_manager_listener l args r)) = walkQueue r"
  by (cases l) (simp_all add: onRepoError_def onRepoReady_def onPackageAdded_def Let_def)

lemma walkQueue_dispatch:
  assumes "\<And>l r. walkQueue (fst (run l args r)) = walkQueue r"
  shows "walkQueue (fst (dispatch run event args ls r)) = walkQueue r"
proof (induction ls arbitrary: r)
  case Nil
  show ?case by simp
next
  case (Cons a ls)
  obtain e l where a: "a = (e, l)" by (cases a)
  obtain r' res where run: "run l args r = (r', res)" by force
  have "walkQueue r' = walkQueue r"
    using assms[of l r] by (simp add: run)
  then show ?case
    by (cases res) (simp_all add: a run Cons.IH)
qed

lemma walkQueue_repo_emit [simp]: "walkQueue (fst (repo_emit event args r)) = walkQueue r"
  by (simp add: repo_emit_def Let_def walkQueue_dispatch)

lemma walkQueue_addPkg [simp]: "walkQueue (fst (addPkg pkg r)) = walkQueue r"
  by (simp add: addPkg_def)

lemma walkQueue_onWalkQueueEmptied [simp]: "walkQueue (fst (onWalkQueueEmptied r)) = walkQueue r"
proof -
  have "walkQueue (fst (repo_emit ''ready'' [ARepo] r)) = walkQueue r"
    by simp
  then show ?thesis
    unfolding onWalkQueueEmptied_def
    by (cases "repo_emit ''ready'' [ARepo] r") (auto split: option.splits)
qed

lemma walkQueue_run_repository_listener [simp]:
  "walkQueue (fst (run_repository_listener l args r)) = walkQueue r"
  by (cases l) (auto simp: onPkgError_def onPkgCreated_def split: arg.splits)

lemma walkQueue_pkg_emit [simp]: "walkQueue (fst (pkg_emit pkg event args r)) = walkQueue r"
  by (simp add: pkg_emit_def Let_def walkQueue_dispatch)

lemma walkQueue_walk [simp]: "walkQueue (fst (walk re fs depth rs pkg r)) = walkQueue r"
proof -
  have e: "walkQueue (fst (pkg_emit pkg event args (store pkg p r'))) = walkQueue r'"
    for event args p r'
    by (simp add: store_def)
  obtain p res where wp: "walk_prepare re fs depth rs (heap r ! pkg) = (p, res)" by force
  show ?thesis
  proof (cases res)
    case (Some err)
    then show ?thesis by (simp add: walk_def wp store_def)
  next
    case None
    show ?thesis
    proof (cases "isValid p")
      case False
      then show ?thesis using None e by (simp add: walk_def wp)
    next
      case True
      let ?c = "if hasWalked p then pkg_emit pkg ''updated'' [APkg pkg] (store pkg p r)
                else pkg_emit pkg ''created'' [APkg pkg]
                       (store pkg (p\<lparr>hasWalked := True\<rparr>) (store pkg p r))"
      have "walkQueue (fst ?c) = walkQueue r"
        using e by (simp add: store_def)
      then show ?thesis
        using None True by (cases ?c) (auto simp: walk_def wp Let_def split: option.splits)
    qed
  qed
qed

lemma walkQueue_walkPkgDir [simp]:
  "walkQueue (fst (walkPkgDir re fs depth file r)) = walkQueue r"
  by (simp add: walkPkgDir_def Let_def)

lemma queue_queue_emit [simp]:
  "queue (walkQueue (fst (queue_emit event args r))) = queue (walkQueue r)"
  by (simp add: queue_emit_def Let_def walkQueue_dispatch)

lemma queue_queue_next [simp]:
  "queue (walkQueue (fst (snd (queue_next r)))) = tl (queue (walkQueue r))"
proof -
  let ?r1 = "r\<lparr>walkQueue := (walkQueue r)\<lparr>queue := tl (queue (walkQueue r))\<rparr>\<rparr>"
  obtain r2 res where d: "queue_emit ''dequeued'' [] ?r1 = (r2, res)" by force
  have q2: "queue (walkQueue r2) = tl (queue (walkQueue r))"
    using queue_queue_emit[of "''dequeued''" "[]" ?r1] by (simp add: d)
  obtain r3 res3 where e: "queue_emit ''emptied'' [] r2 = (r3, res3)" by force
  have q3: "queue (walkQueue r3) = tl (queue (walkQueue r))"
    using queue_queue_emit[of "''emptied''" "[]" r2] by (simp add: e q2)
  show ?thesis
    using q2 q3 by (cases res) (simp_all add: queue_next_def Let_def d e)
qed

text \<open>
  \<open>_processWalkQueue\<close>: the loop runs while the queue has entries; an exception of \<open>next\<close>
  or a rejected walk ends it and rejects the scan.
\<close>

function processWalkQueue :: "regexp \<Rightarrow> node \<Rightarrow> nat \<Rightarrow> repository \<Rightarrow> repository \<times> js_error option" where
  "processWalkQueue re fs depth r =
     (if queue (walkQueue r) \<noteq> [] then
        (case queue_next r of
           (item, r1, Some err) \<Rightarrow> (r1, Some err)
         | (item, r1, None) \<Rightarrow>
             (case item of
                None \<Rightarrow> (r1, Some TypeError)
              | Some file \<Rightarrow>
                  (case walkPkgDir re fs depth file r1 of
                     (r2, Some e) \<Rightarrow> (r2, Some e)
                   | (r2, None) \<Rightarrow> processWalkQueue re fs depth r2)))
      else (r, None))"
  by pat_completeness auto
termination
proof (relation "measure (\<lambda>(re, fs, depth, r). length (queue (walkQueue r)))", goal_cases)
  case 1
  show ?case by simp
next
  case (2 re fs depth r item rest r1 res f r2 res2)
  have "queue (walkQueue r1) = tl (queue (walkQueue r))"
    using 2 queue_queue_next[of r] by (metis fst_conv snd_conv)
  moreover have "walkQueue r2 = walkQueue r1"
    using 2 walkQueue_walkPkgDir[of re fs depth f r1] by (metis fst_conv)
  ultimately show ?case using 2(1) by (cases "queue (walkQueue r)") auto
qed

declare processWalkQueue.simps [simp del]

text \<open>
  \<open>scan\<close>. The first two statements run before the first \<open>await\<close>; an exception of the
  emit of \<open>scanning\<close> rejects the scan before the listener for \<open>emptied\<close> is registered.
\<close>

definition scan :: "regexp \<Rightarrow> node \<Rightarrow> nat \<Rightarrow> repository \<Rightarrow> repository \<times> js_error option" where
  "scan re fs depth r =
     (case repo_emit ''scanning'' [ARepo] r of
        (r1, Some err) \<Rightarrow> (r1, Some err)
      | (r1, None) \<Rightarrow>
          (let r2 = queue_once ''emptied'' OnWalkQueueEmptied r1 in
           case populateWalkQueue re (dir r2) (node_at fs (dir r2)) r2 of
             (r3, Some err) \<Rightarrow> (r3, Some err)
           | (r3, None) \<Rightarrow> processWalkQueue re fs depth r3))"

section \<open>PackageManager\<close>

text \<open>
  The manager holds its repositories in a plain object used as a hash table, and it is an
  event emitter itself: \<open>client_events\<close> lists the events for which client code has
  attached a listener to it. The state of each Repository carries a copy of that list
  (\<open>manager_events\<close>). A Repository named \<open>__proto__\<close> would become the prototype of the
  table; the members it would then lend to the table are not modelled.
\<close>

record packageManager =
  repos :: "(string \<times> repository) list"
  client_events :: "string list"

definition new_PackageManager :: packageManager where
  "new_PackageManager = \<lparr> repos = [], client_events = [] \<rparr>"

definition manager_on :: "string \<Rightarrow> packageManager \<Rightarrow> packageManager" where
  "manager_on event m =
     m\<lparr>client_events := client_events m @ [event],
       repos := map (\<lambda>(key, r). (key, r\<lparr>manager_events := manager_events r @ [event]\<rparr>)) (repos m)\<rparr>"

definition repo_on :: "string \<Rightarrow> manager_listener \<Rightarrow> repository \<Rightarrow> repository" where
  "repo_on event l r = r\<lparr>listeners := listeners r @ [(event, l)]\<rparr>"

definition addRepository :: "repoSettings \<Rightarrow> packageManager \<Rightarrow> packageManager" where
  "addRepository options m =
     (let repo = (new_Repository options)\<lparr>manager_events := client_events m\<rparr>;
          repo1 = repo_on ''error'' OnRepoError repo;
          repo2 = repo_on ''ready'' OnRepoReady repo1;
          repo3 = repo_on ''addedPackage'' OnPackageAdded repo2
      in m\<lparr>repos := AList.update (repo_name repo) repo3 (repos m)\<rparr>)"

text \<open>
  \<open>table[key]\<close> on a plain object: a property of its own, a member inherited from
  \<open>Object.prototype\<close> (truthy, and not a Repository), or \<open>undefined\<close>.
\<close>

datatype 'a entry = Absent | Inherited | Own 'a

definition lookup :: "(string \<times> 'a) list \<Rightarrow> string \<Rightarrow> 'a entry" where
  "lookup table key =
     (case map_of table key of
        Some v \<Rightarrow> Own v
      | None \<Rightarrow> if key \<in> set object_prototype_members then Inherited else Absent)"

definition getRepository :: "string \<Rightarrow> packageManager \<Rightarrow> repository entry" where
  "getRepository name' m = lookup (repos m) name'"

text \<open>
  \<open>scanRepository\<close> starts the scan without awaiting it, so a rejected scan is not passed
  on; the scan is run to completion here. An inherited member passes the test of
  \<open>_doesRepoExist\<close> and has no method \<open>scan\<close>.
\<close>

definition scanRepository ::
  "regexp \<Rightarrow> node \<Rightarrow> nat \<Rightarrow> string \<Rightarrow> packageManager \<Rightarrow> packageManager \<times> js_error option" where
  "scanRepository re fs depth repo m =
     (case lookup (repos m) repo of
        Absent \<Rightarrow> (m, None)
      | Inherited \<Rightarrow> (m, Some TypeError)
      | Own r \<Rightarrow> (m\<lparr>repos := AList.update repo (fst (scan re fs depth r)) (repos m)\<rparr>, None))"

section \<open>A concrete environment\<close>

text \<open>
  The data below is used to run the model: a regular-expression engine given by the table of
  its answers (with \<open>.+\<close> matching every subject that has a character other than a line
  break), two metadata texts, rule sets and directory trees.
\<close>

definition alpha_text :: string where "alpha_text = ''name=Alpha;guid=A1''"
definition beta_text :: string where "beta_text = ''name=Beta;guid=B2''"
definition nameless_text :: string where "nameless_text = ''guid=C3''"

definition demo_matches :: "((string \<times> string) \<times> rx_match) list" where
  "demo_matches =
     [((''README.md'', ''/repo/alpha/README.md''), Match None),
      ((''README.md'', ''/repo/beta/README.md''), Match None),
      ((''README.md'', ''/repo/gamma/README.md''), Match None),
      ((''name=([^;]+)'', alpha_text), Match (Some ''Alpha'')),
      ((''guid=([^;]+)'', alpha_text), Match (Some ''A1'')),
      ((''name=([^;]+)'', beta_text), Match (Some ''Beta'')),
      ((''guid=([^;]+)'', beta_text), Match (Some ''B2'')),
      ((''guid=([^;]+)'', nameless_text), Match (Some ''C3''))]"

definition demo_regexp :: regexp where
  "demo_regexp =
     \<lparr> compiles = (\<lambda>src. True),
       exec = (\<lambda>ignoreCase src subject.
                 if src = ''.+''
                 then (if list_ex (\<lambda>c. c \<noteq> CHR 0x0A \<and> c \<noteq> CHR 0x0D) subject
                       then Match None else NoMatch)
                 else (case map_of demo_matches (src, subject) of
                         Some m \<Rightarrow> m | None \<Rightarrow> NoMatch)) \<rparr>"

definition demo_rules :: rules where
  "demo_rules = [(''name'', Pattern ''name=([^;]+)''), (''guid'', Pattern ''guid=([^;]+)'')]"

definition nested_rules :: rules where
  "nested_rules = [(''meta'', Group [(''name'', Pattern ''name=([^;]+)'')])]"

definition demo_settings :: repoSettings where
  "demo_settings =
     \<lparr> opt_name = ''main'',
       opt_dir = [''repo''],
       opt_ignore = [],
       opt_packageDefinition =
         \<lparr> configFileName = ''README.md'', configParseRules = demo_rules, ignore = [] \<rparr> \<rparr>"

text \<open>
  \<open>bare_repository\<close> is a Repository that nobody listens to. \<open>managed_repository\<close> is the
  one that a manager builds with \<open>addRepository\<close> when client code has attached a listener
  for the manager's \<open>error\<close> signal; \<open>unattended_repository\<close> is the one it builds when
  client code has attached none.
\<close>

definition bare_repository :: repository where
  "bare_repository = new_Repository demo_settings"

definition managed_repository :: repository where
  "managed_repository =
     (new_Repository demo_settings)
       \<lparr>listeners := [(''error'', OnRepoError), (''ready'', OnRepoReady),
                      (''addedPackage'', OnPackageAdded)],
        manager_events := [''error'']\<rparr>"

definition unattended_repository :: repository where
  "unattended_repository =
     (new_Repository demo_settings)
       \<lparr>listeners := [(''error'', OnRepoError), (''ready'', OnRepoReady),
                      (''addedPackage'', OnPackageAdded)],
        manager_events := []\<rparr>"

lemma repositories_of_the_manager:
  "getRepository ''main'' (addRepository demo_settings (manager_on ''error'' new_PackageManager))
     = Own managed_repository"
  "getRepository ''main'' (manager_on ''error'' (addRepository demo_settings new_PackageManager))
     = Own managed_repository"
  "getRepository ''main'' (addRepository demo_settings new_PackageManager)
     = Own unattended_repository"
  by code_simp+

definition two_packages :: node where
  "two_packages =
     Dir [(''repo'',
           Dir [(''alpha'', Dir [(''README.md'', File alpha_text)]),
                (''beta'', Dir [(''README.md'', File beta_text)])])]"

definition one_package :: node where
  "one_package = Dir [(''repo'', Dir [(''alpha'', Dir [(''README.md'', File alpha_text)])])]"

definition nameless_package :: node where
  "nameless_package =
     Dir [(''repo'', Dir [(''gamma'', Dir [(''README.md'', File nameless_text)])])]"

definition no_packages :: node where
  "no_packages = Dir [(''repo'', Dir [(''notes.txt'', File ''hello'')])]"

definition nested_listing :: node where
  "nested_listing =
     Dir [(''repo'',
           Dir [(''alpha'',
                 Dir [(''README.md'', File alpha_text),
                      (''a.txt'', File ''a''),
                      (''sub'', Dir [(''b.txt'', File ''b'')])])])]"

definition unreadable_metadata :: node where
  "unreadable_metadata = Dir [(''repo'', Dir [(''alpha'', Dir [(''README.md'', Unreadable)])])]"

definition absent_metadata :: node where
  "absent_metadata = Dir [(''repo'', Dir [(''alpha'', Dir [])])]"

definition first_unreadable :: node where
  "first_unreadable =
     Dir [(''repo'',
           Dir [(''alpha'', Dir [(''README.md'', Unreadable)]),
                (''beta'', Dir [(''README.md'', File beta_text)])])]"

definition denied_listing :: node where
  "denied_listing = Dir [(''repo'', DirDenied)]"

section \<open>What the operations do to the state\<close>

text \<open>
  An emit of the Repository adds signals to the trace and touches nothing else: its own
  signal, followed by what the manager's listeners for that event emit in turn, up to the
  first of them that throws. Both the signals and the exception depend on the two listener
  tables only.
\<close>

fun manager_signal :: "manager_listener \<Rightarrow> arg list \<Rightarrow> signal list" where
  "manager_signal OnRepoError args = [(EManager, ''error'', [nth_arg args 0])]"
| "manager_signal OnRepoReady args =
     [(EManager, ''repoReady'', [AObj [(''manager'', AMgr), (''repository'', nth_arg args 0)]])]"
| "manager_signal OnPackageAdded args =
     [(EManager, ''packageAdded'',
       [case nth_arg args 0 of
          AUndefined \<Rightarrow> AObj [(''manager'', AMgr)]
        | AObj kvs \<Rightarrow> AObj (AList.update ''manager'' AMgr kvs)
        | a \<Rightarrow> a])]"
| "manager_signal Observer args = []"

definition listener_result :: "string list \<Rightarrow> manager_listener \<Rightarrow> arg list \<Rightarrow> js_error option" where
  "listener_result ms l args =
     (if l = OnRepoError \<and> ''error'' \<notin> set ms then Some (raised args) else None)"

fun dispatched ::
  "string list \<Rightarrow> string \<Rightarrow> arg list \<Rightarrow> (string \<times> manager_listener) list \<Rightarrow>
   signal list \<times> js_error option" where
  "dispatched ms event args [] = ([], None)"
| "dispatched ms event args ((e, l) # ls) =
     (if e = event then
        (case listener_result ms l args of
           Some err \<Rightarrow> (manager_signal l args, Some err)
         | None \<Rightarrow> (manager_signal l args @ fst (dispatched ms event args ls),
                    snd (dispatched ms event args ls)))
      else dispatched ms event args ls)"

definition repo_signals ::
  "(string \<times> manager_listener) list \<Rightarrow> string list \<Rightarrow> string \<Rightarrow> arg list \<Rightarrow> signal list" where
  "repo_signals ls ms event args =
     (ERepository, event, args) #
     (if unhandled event (map fst ls) then [] else fst (dispatched ms event args ls))"

definition repo_result ::
  "(string \<times> manager_listener) list \<Rightarrow> string list \<Rightarrow> string \<Rightarrow> arg list \<Rightarrow> js_error option" where
  "repo_result ls ms event args =
     (if unhandled event (map fst ls) then Some (raised args)
      else snd (dispatched ms event args ls))"

abbreviation signals_of :: "repository \<Rightarrow> string \<Rightarrow> arg list \<Rightarrow> signal list" where
  "signals_of r \<equiv> repo_signals (listeners r) (manager_events r)"

abbreviation result_of :: "repository \<Rightarrow> string \<Rightarrow> arg list \<Rightarrow> js_error option" where
  "result_of r \<equiv> repo_result (listeners r) (manager_events r)"

lemma raised_single [simp]: "raised [nth_arg args 0] = raised args"
  by (simp add: raised_def nth_arg_def)

lemma run_manager_listener_eq:
  "run_manager_listener l args r =
     (r\<lparr>trace := trace r @ manager_signal l args\<rparr>, listener_result (manager_events r) l args)"
  by (cases l)
     (simp_all add: onRepoError_def onRepoReady_def onPackageAdded_def manager_emit_def Let_def
        log_def listener_result_def unhandled_def)

lemma dispatch_manager_eq:
  "dispatch run_manager_listener event args ls r =
     (r\<lparr>trace := trace r @ fst (dispatched (manager_events r) event args ls)\<rparr>,
      snd (dispatched (manager_events r) event args ls))"
proof (induction ls arbitrary: r)
  case Nil
  show ?case by simp
next
  case (Cons a ls)
  obtain e l where a: "a = (e, l)" by (cases a)
  have run: "run_manager_listener l args r =
     (r\<lparr>trace := trace r @ manager_signal l args\<rparr>, listener_result (manager_events r) l args)"
    by (rule run_manager_listener_eq)
  show ?case
    by (cases "listener_result (manager_events r) l args")
       (simp_all add: a run Cons.IH)
qed

lemma repo_emit_eq:
  "repo_emit event args r =
     (r\<lparr>trace := trace r @ signals_of r event args\<rparr>, result_of r event args)"
  by (simp add: repo_emit_def Let_def dispatch_manager_eq log_def repo_signals_def repo_result_def)

text \<open>
  When the emit of an event returns: an \<open>error\<close> needs a listener, and \<open>_onRepoError\<close>, if
  it listens to the event, needs a listener for the manager's \<open>error\<close>.
\<close>

definition returns :: "(string \<times> manager_listener) list \<Rightarrow> string list \<Rightarrow> string \<Rightarrow> bool" where
  "returns ls ms event =
     (\<not> unhandled event (map fst ls) \<and> ((event, OnRepoError) \<notin> set ls \<or> ''error'' \<in> set ms))"

lemma dispatched_result:
  "snd (dispatched ms event args ls) =
     (if (event, OnRepoError) \<in> set ls \<and> ''error'' \<notin> set ms then Some (raised args) else None)"
proof (induction ls)
  case Nil
  show ?case by simp
next
  case (Cons a ls)
  obtain e l where a: "a = (e, l)" by (cases a)
  show ?case
  proof (cases "e = event")
    case False
    then show ?thesis using Cons by (simp add: a)
  next
    case True
    show ?thesis
    proof (cases "l = OnRepoError \<and> ''error'' \<notin> set ms")
      case True
      with \<open>e = event\<close> show ?thesis by (simp add: a listener_result_def)
    next
      case False
      with \<open>e = event\<close> Cons show ?thesis by (auto simp: a listener_result_def)
    qed
  qed
qed

lemma repo_result_eq:
  "repo_result ls ms event args = (if returns ls ms event then None else Some (raised args))"
  by (auto simp: repo_result_def returns_def dispatched_result)

lemma manager_signal_source: "s \<in> set (manager_signal l args) \<Longrightarrow> fst s = EManager"
  by (cases l) auto

lemma dispatched_source: "s \<in> set (fst (dispatched ms event args ls)) \<Longrightarrow> fst s = EManager"
  by (induction ls) (auto split: option.splits if_splits dest: manager_signal_source)

lemma filter_dispatched:
  assumes "\<And>event args. \<not> P (EManager, event, args)"
  shows "filter P (fst (dispatched ms event args ls)) = []"
proof -
  have "\<not> P s" if "s \<in> set (fst (dispatched ms event args ls))" for s
    using dispatched_source[OF that] assms by (cases s) auto
  then show ?thesis
    by (simp add: filter_empty_conv)
qed

lemma filter_repo_signals:
  assumes "\<And>event args. \<not> P (EManager, event, args)"
  shows "filter P (repo_signals ls ms event args) =
           (if P (ERepository, event, args) then [(ERepository, event, args)] else [])"
  by (simp add: repo_signals_def filter_dispatched[where P = P, OF assms])

lemma pass [simp]:
  "(case x of (r', Some err) \<Rightarrow> (r', Some err) | (r', None) \<Rightarrow> (r', None)) = x"
  by (auto split: prod.splits option.splits)

lemma addPkg_eq:
  "addPkg pkg r =
     (if has_truthy_entry (packages r) (to_key (guid (heap r ! pkg)))
      then (r\<lparr>invalidPackages := invalidPackages r @ [pkg],
              trace := trace r @ signals_of r ''error''
                         [AErr RepositoryNotUniquePackageError, APkg pkg]\<rparr>,
            result_of r ''error'' [AErr RepositoryNotUniquePackageError, APkg pkg])
      else (r\<lparr>packages := AList.update (to_key (guid (heap r ! pkg))) pkg (packages r),
              trace := trace r @ signals_of r ''packageAdded''
                         [AObj [(''repository'', ARepo), (''package'', APkg pkg)]]\<rparr>,
            result_of r ''packageAdded'' [AObj [(''repository'', ARepo), (''package'', APkg pkg)]]))"
  by (simp add: addPkg_def repo_emit_eq)

lemma onPkgError_eq:
  "onPkgError [err, APkg pkg] r =
     (if isValid (heap r ! pkg)
      then (r\<lparr>trace := trace r @ signals_of r ''error'' [err]\<rparr>, result_of r ''error'' [err])
      else (r\<lparr>invalidPackages := invalidPackages r @ [pkg],
              trace := trace r @ signals_of r ''error'' [err]\<rparr>,
            result_of r ''error'' [err]))"
  by (simp add: onPkgError_def repo_emit_eq nth_arg_def)

lemma onWalkQueueEmptied_eq:
  "fst (onWalkQueueEmptied r) =
     (if hasCompletedScan r
      then r\<lparr>lastscan := Some (clock r), clock := Suc (clock r)\<rparr>
      else if returns (listeners r) (manager_events r) ''ready''
      then r\<lparr>trace := trace r @ signals_of r ''ready'' [ARepo],
             hasCompletedScan := True, lastscan := Some (clock r), clock := Suc (clock r)\<rparr>
      else r\<lparr>trace := trace r @ signals_of r ''ready'' [ARepo]\<rparr>)"
  by (simp add: onWalkQueueEmptied_def repo_emit_eq repo_result_eq)

text \<open>The preparation of a walk leaves alone what its signalling part reads.\<close>

lemma set_property_frame [simp]:
  "plisteners (set_property p k v) = plisteners p"
  "hasWalked (set_property p k v) = hasWalked p"
  "lastWalk (set_property p k v) = lastWalk p"
  "rawConfigContents (set_property p k v) = rawConfigContents p"
  "absoluteDirPath (set_property p k v) = absoluteDirPath p"
  by (simp_all add: set_property_def)

lemma parse_frame:
  "plisteners (fst (parse re depth rs p)) = plisteners p \<and>
   hasWalked (fst (parse re depth rs p)) = hasWalked p \<and>
   lastWalk (fst (parse re depth rs p)) = lastWalk p"
  "plisteners (fst (parse_loop re depth rs rest p)) = plisteners p \<and>
   hasWalked (fst (parse_loop re depth rs rest p)) = hasWalked p \<and>
   lastWalk (fst (parse_loop re depth rs rest p)) = lastWalk p"
  by (induction re depth rs p and re depth rs rest p rule: parse_parse_loop.induct)
     (auto split: prod.splits option.splits jsval.splits rx_match.splits)

lemma search_frame:
  "plisteners (search re d n p) = plisteners p \<and>
   hasWalked (search re d n p) = hasWalked p \<and>
   lastWalk (search re d n p) = lastWalk p \<and>
   name (search re d n p) = name p \<and> guid (search re d n p) = guid p"
  "plisteners (search_loop re d files p) = plisteners p \<and>
   hasWalked (search_loop re d files p) = hasWalked p \<and>
   lastWalk (search_loop re d files p) = lastWalk p \<and>
   name (search_loop re d files p) = name p \<and> guid (search_loop re d files p) = guid p"
  by (induction re d n p and re d files p rule: search_search_loop.induct)
     (auto simp: Let_def split: sum.splits bool.splits rx_match.splits)

lemma readConfigFile_frame:
  "plisteners (fst (readConfigFile fs p)) = plisteners p \<and>
   hasWalked (fst (readConfigFile fs p)) = hasWalked p \<and>
   lastWalk (fst (readConfigFile fs p)) = lastWalk p"
  by (auto simp: readConfigFile_def Let_def split: sum.splits)

lemma walk_prepare_frame:
  "plisteners (fst (walk_prepare re fs depth rs p)) = plisteners p \<and>
   hasWalked (fst (walk_prepare re fs depth rs p)) = hasWalked p \<and>
   lastWalk (fst (walk_prepare re fs depth rs p)) = lastWalk p"
proof -
  obtain p1 e1 where rc: "readConfigFile fs p = (p1, e1)" by force
  obtain p2 e2 where pa: "parse re depth rs p1 = (p2, e2)" by force
  have f1: "plisteners p1 = plisteners p \<and> hasWalked p1 = hasWalked p \<and> lastWalk p1 = lastWalk p"
    using readConfigFile_frame[of fs p] rc by simp
  have f2: "plisteners p2 = plisteners p1 \<and> hasWalked p2 = hasWalked p1 \<and> lastWalk p2 = lastWalk p1"
    using parse_frame(1)[of re depth rs p1] pa by simp
  show ?thesis
    using rc pa f1 f2 search_frame(1)[of re "absoluteDirPath p2" "node_at fs (absoluteDirPath p2)" p2]
    by (simp add: walk_prepare_def split: option.splits del: search.simps)
qed

lemma heap_log [simp]: "heap (log s r) = heap r"
  by (simp add: log_def)

lemma pkg_emit_created:
  "plisteners (heap r ! pkg) = [(''error'', OnPkgError), (''created'', OnPkgCreated)] \<Longrightarrow>
   pkg_emit pkg ''created'' [APkg pkg] r = addPkg pkg (log (EPackage pkg, ''created'', [APkg pkg]) r)"
  by (simp add: pkg_emit_def unhandled_def onPkgCreated_def nth_arg_def)

lemma pkg_emit_error:
  "plisteners (heap r ! pkg) = [(''error'', OnPkgError), (''created'', OnPkgCreated)] \<Longrightarrow>
   pkg_emit pkg ''error'' [err, APkg pkg] r = onPkgError [err, APkg pkg] (log (EPackage pkg, ''error'', [err, APkg pkg]) r)"
  by (simp add: pkg_emit_def unhandled_def)

lemma pkg_emit_updated:
  "plisteners (heap r ! pkg) = [(''error'', OnPkgError), (''created'', OnPkgCreated)] \<Longrightarrow>
   pkg_emit pkg ''updated'' args r = (log (EPackage pkg, ''updated'', args) r, None)"
  by (simp add: pkg_emit_def unhandled_def)

text \<open>
  The marks that the end of \<open>walk\<close> leaves on a Package that has signalled \<open>created\<close>:
  \<open>_hasWalked\<close> is set before the emit, \<open>_lastWalk\<close> after it, if it returns.
\<close>

definition marked :: "js_error option \<Rightarrow> nat \<Rightarrow> package \<Rightarrow> package" where
  "marked res c p =
     (case res of None \<Rightarrow> p\<lparr>hasWalked := True, lastWalk := Some c\<rparr> | Some err \<Rightarrow> p\<lparr>hasWalked := True\<rparr>)"

definition ticked :: "js_error option \<Rightarrow> nat \<Rightarrow> nat" where
  "ticked res c = (case res of None \<Rightarrow> Suc c | Some err \<Rightarrow> c)"

lemma marked_simps [simp]:
  "isValid (marked res c p) = isValid p"
  "guid (marked res c p) = guid p"
  "name (marked res c p) = name p"
  by (simp_all add: marked_def isValid_def split: option.splits)

lemma ticked_le [simp]: "c \<le> ticked res c"
  by (simp add: ticked_def split: option.splits)

text \<open>The Package that \<open>_walkPkgDir\<close> builds for a candidate, with its two listeners.\<close>

definition fresh_package :: "fpath \<Rightarrow> fpath \<Rightarrow> package" where
  "fresh_package d file =
     (new_Package d file)\<lparr>plisteners := [(''error'', OnPkgError), (''created'', OnPkgCreated)]\<rparr>"

lemma walkPkgDir_eq:
  assumes "walk_prepare re fs depth (configParseRules (packageDefinition r))
             (fresh_package (dir r) file) = (p, res)"
  shows "walkPkgDir re fs depth file r =
    (case res of
       Some e \<Rightarrow> (r\<lparr>heap := heap r @ [p]\<rparr>, Some e)
     | None \<Rightarrow>
        if \<not> isValid p then
          (r\<lparr>heap := heap r @ [p],
             invalidPackages := invalidPackages r @ [length (heap r)],
             trace := trace r @ (EPackage (length (heap r)), ''error'',
                                 [AErr PackageMissingRequirementError, APkg (length (heap r))])
                        # signals_of r ''error'' [AErr PackageMissingRequirementError]\<rparr>,
           result_of r ''error'' [AErr PackageMissingRequirementError])
        else if has_truthy_entry (packages r) (to_key (guid p)) then
          (r\<lparr>heap := heap r @
                 [marked (result_of r ''error''
                            [AErr RepositoryNotUniquePackageError, APkg (length (heap r))])
                    (clock r) p],
             invalidPackages := invalidPackages r @ [length (heap r)],
             trace := trace r @ (EPackage (length (heap r)), ''created'', [APkg (length (heap r))])
                        # signals_of r ''error''
                            [AErr RepositoryNotUniquePackageError, APkg (length (heap r))],
             clock := ticked (result_of r ''error''
                                [AErr RepositoryNotUniquePackageError, APkg (length (heap r))])
                        (clock r)\<rparr>,
           result_of r ''error'' [AErr RepositoryNotUniquePackageError, APkg (length (heap r))])
        else
          (r\<lparr>heap := heap r @
                 [marked (result_of r ''packageAdded''
                            [AObj [(''repository'', ARepo), (''package'', APkg (length (heap r)))]])
                    (clock r) p],
             packages := AList.update (to_key (guid p)) (length (heap r)) (packages r),
             trace := trace r @ (EPackage (length (heap r)), ''created'', [APkg (length (heap r))])
                        # signals_of r ''packageAdded''
                            [AObj [(''repository'', ARepo), (''package'', APkg (length (heap r)))]],
             clock := ticked (result_of r ''packageAdded''
                                [AObj [(''repository'', ARepo), (''package'', APkg (length (heap r)))]])
                        (clock r)\<rparr>,
           result_of r ''packageAdded''
             [AObj [(''repository'', ARepo), (''package'', APkg (length (heap r)))]]))"
proof -
  let ?n = "length (heap r)"
  let ?r1 = "r\<lparr>heap := heap r @ [fresh_package (dir r) file]\<rparr>"
  have fr: "plisteners p = [(''error'', OnPkgError), (''created'', OnPkgCreated)]"
    "hasWalked p = False"
    using walk_prepare_frame[of re fs depth "configParseRules (packageDefinition r)"
            "fresh_package (dir r) file"] assms
    by (simp_all add: fresh_package_def new_Package_def)
  have w: "walkPkgDir re fs depth file r =
        walk re fs depth (configParseRules (packageDefinition r)) ?n ?r1"
    by (simp add: walkPkgDir_def fresh_package_def Let_def)
  have wp: "walk_prepare re fs depth (configParseRules (packageDefinition r)) (heap ?r1 ! ?n) = (p, res)"
    using assms by simp
  show ?thesis
  proof (cases res)
    case (Some e)
    then show ?thesis
      unfolding w walk_def wp by (simp add: store_def)
  next
    case None
    show ?thesis
    proof (cases "isValid p")
      case False
      then show ?thesis
        unfolding w walk_def wp using None fr
        by (simp add: store_def pkg_emit_error onPkgError_eq log_def)
    next
      case True
      show ?thesis
      proof (cases "has_truthy_entry (packages r) (to_key (guid p))")
        case dup: True
        show ?thesis
          unfolding w walk_def wp using None True dup fr
          by (cases "result_of r ''error'' [AErr RepositoryNotUniquePackageError, APkg ?n]")
             (simp_all add: store_def pkg_emit_created addPkg_eq log_def marked_def ticked_def)
      next
        case new: False
        show ?thesis
          unfolding w walk_def wp using None True new fr
          by (cases "result_of r ''packageAdded''
                       [AObj [(''repository'', ARepo), (''package'', APkg ?n)]]")
             (simp_all add: store_def pkg_emit_created addPkg_eq log_def marked_def ticked_def)
      qed
    qed
  qed
qed

subsection \<open>Properties kept by every step of a scan\<close>

text \<open>
  The signals of the queue carry no Package, so of the listeners on the queue only
  \<open>_onWalkQueueEmptied\<close> does anything, and no emit of the queue throws.
\<close>

lemma run_on_queue:
  assumes "args = [] \<or> (\<exists>item. args = [APath item])"
  shows "run_repository_listener l args r =
           (if l = OnWalkQueueEmptied then fst (onWalkQueueEmptied r) else r, None)"
  using assms by (cases l) (auto simp: onPkgError_def onPkgCreated_def nth_arg_def)

lemma dispatch_queue_returns:
  assumes "args = [] \<or> (\<exists>item. args = [APath item])"
  shows "snd (dispatch run_repository_listener event args ls r) = None"
proof (induction ls arbitrary: r)
  case Nil
  show ?case by simp
next
  case (Cons a ls)
  obtain e l where a: "a = (e, l)" by (cases a)
  show ?case
    using Cons.IH by (simp add: a run_on_queue[OF assms, of l r])
qed

lemma queue_emit_returns:
  assumes "event \<noteq> ''error''" and "args = [] \<or> (\<exists>item. args = [APath item])"
  shows "snd (queue_emit event args r) = None"
  using assms(1) by (simp add: queue_emit_def Let_def unhandled_def dispatch_queue_returns[OF assms(2)])

lemma queue_push_returns [simp]: "snd (queue_push item r) = None"
  unfolding queue_push_def by (rule queue_emit_returns) simp_all

lemma queue_next_returns [simp]: "snd (snd (queue_next r)) = None"
proof -
  have d: "snd (queue_emit ''dequeued'' [] r') = None" for r'
    by (rule queue_emit_returns) simp_all
  have e: "snd (queue_emit ''emptied'' [] r') = None" for r'
    by (rule queue_emit_returns) simp_all
  let ?r1 = "r\<lparr>walkQueue := (walkQueue r)\<lparr>queue := tl (queue (walkQueue r))\<rparr>\<rparr>"
  obtain r2 where r2: "queue_emit ''dequeued'' [] ?r1 = (r2, None)"
    using d[of ?r1] by (cases "queue_emit ''dequeued'' [] ?r1") simp
  obtain r3 where r3: "queue_emit ''emptied'' [] r2 = (r3, None)"
    using e[of r2] by (cases "queue_emit ''emptied'' [] r2") simp
  show ?thesis
    by (simp add: queue_next_def Let_def r2 r3)
qed

text \<open>
  A property of the state that is kept by the handler of the queue's \<open>emptied\<close> signal, by
  the queue's own bookkeeping, by the signals of the Repository other than \<open>ready\<close> and by
  the walk of one candidate is kept by a whole scan, whether the scan returns or is rejected.
\<close>

lemma dispatch_queue_preserves:
  assumes owe: "\<And>r. P r \<Longrightarrow> P (fst (onWalkQueueEmptied r))"
    and args: "args = [] \<or> (\<exists>item. args = [APath item])"
  shows "P r \<Longrightarrow> P (fst (dispatch run_repository_listener event args ls r))"
proof (induction ls arbitrary: r)
  case Nil
  then show ?case by simp
next
  case (Cons a ls)
  obtain e l where a: "a = (e, l)" by (cases a)
  have "P (if l = OnWalkQueueEmptied then fst (onWalkQueueEmptied r) else r)"
    using Cons.prems owe by simp
  with Cons show ?case
    by (simp add: a run_on_queue[OF args, of l r])
qed

lemma queue_emit_preserves:
  assumes owe: "\<And>r. P r \<Longrightarrow> P (fst (onWalkQueueEmptied r))"
    and qlog: "\<And>r e a. P r \<Longrightarrow> P (log (EQueue, e, a) r)"
    and wq: "\<And>r q. P r \<Longrightarrow> P (r\<lparr>walkQueue := q\<rparr>)"
    and args: "args = [] \<or> (\<exists>item. args = [APath item])"
  shows "P r \<Longrightarrow> P (fst (queue_emit event args r))"
proof -
  assume p: "P r"
  have "P (fst (dispatch run_repository_listener event args ls
                  ((log (EQueue, event, args) r)\<lparr>walkQueue := q\<rparr>)))" for ls q
    by (intro dispatch_queue_preserves[where P = P] owe args wq qlog p)
  moreover have "P (log (EQueue, event, args) r)"
    by (intro qlog p)
  ultimately show ?thesis
    by (simp add: queue_emit_def Let_def)
qed

lemma queue_ops_preserve:
  assumes owe: "\<And>r. P r \<Longrightarrow> P (fst (onWalkQueueEmptied r))"
    and qlog: "\<And>r e a. P r \<Longrightarrow> P (log (EQueue, e, a) r)"
    and wq: "\<And>r q. P r \<Longrightarrow> P (r\<lparr>walkQueue := q\<rparr>)"
  shows "P r \<Longrightarrow> P (fst (queue_push item r))"
    and "P r \<Longrightarrow> P (fst (snd (queue_next r)))"
    and "P r \<Longrightarrow> P (queue_once event l r)"
proof -
  have qe: "P (fst (queue_emit event args r))"
    if "P r" "args = [] \<or> (\<exists>item. args = [APath item])" for event args r
    using that(1) by (rule queue_emit_preserves[where P = P, rotated 4]) (intro owe qlog wq that(2); assumption)+
  show "P r \<Longrightarrow> P (fst (queue_push item r))"
    unfolding queue_push_def by (intro qe wq) auto
  show "P r \<Longrightarrow> P (fst (snd (queue_next r)))"
  proof -
    assume p: "P r"
    let ?r1 = "r\<lparr>walkQueue := (walkQueue r)\<lparr>queue := tl (queue (walkQueue r))\<rparr>\<rparr>"
    obtain r2 res where d: "queue_emit ''dequeued'' [] ?r1 = (r2, res)" by force
    have p2: "P r2"
      using qe[of ?r1 "[]" "''dequeued''"] wq[OF p] by (simp add: d)
    obtain r3 res3 where e: "queue_emit ''emptied'' [] r2 = (r3, res3)" by force
    have p3: "P r3"
      using qe[OF p2, of "[]" "''emptied''"] by (simp add: e)
    show ?thesis
      using p2 p3 by (cases res) (simp_all add: queue_next_def Let_def d e)
  qed
  show "P r \<Longrightarrow> P (queue_once event l r)"
    unfolding queue_once_def by (intro wq)
qed

lemma populate_preserves:
  assumes err: "\<And>r e. P r \<Longrightarrow> P (fst (repo_emit ''error'' [AErr e] r))"
    and push: "\<And>r item. P r \<Longrightarrow> P (fst (queue_push item r))"
  shows "P r \<Longrightarrow> P (fst (populateWalkQueue re d n r))"
    and "P r \<Longrightarrow> P (fst (populate_loop re d files r))"
proof (induction re d n r and re d files r rule: populateWalkQueue_populate_loop.induct)
  case (1 re directory n r)
  show ?case
  proof (cases "readdirAsync n")
    case (Inl err')
    then show ?thesis using err[OF "1.prems"] by (simp add: populateWalkQueue.simps)
  next
    case (Inr files)
    obtain r' res where l: "populate_loop re directory files r = (r', res)" by force
    have "P r'" using "1.IH"[OF Inr "1.prems"] by (simp add: l)
    then show ?thesis
      using err[of r'] by (cases res) (simp_all add: populateWalkQueue.simps Inr l)
  qed
next
  case (2 re directory r)
  then show ?case by simp
next
  case (3 re directory f n rest r)
  let ?full = "resolve directory f"
  show ?case
  proof (cases "isDirectory n")
    case (Inl err')
    then show ?thesis using "3.prems" by simp
  next
    case (Inr b)
    show ?thesis
    proof (cases b)
      case True
      then have bt: "b = True" by simp
      obtain r' res where w: "populateWalkQueue re ?full n r = (r', res)" by force
      have p': "P r'"
        using "3.IH"(1)[OF refl Inr bt "3.prems"] by (simp add: w)
      show ?thesis
      proof (cases res)
        case None
        have "P (fst (populate_loop re directory rest r'))"
          by (rule "3.IH"(2)[OF refl Inr bt w[symmetric] None p'])
        then show ?thesis using Inr bt w None by simp
      next
        case (Some e)
        then show ?thesis using Inr bt w p' by simp
      qed
    next
      case False
      then have bf: "b = False" by simp
      show ?thesis
      proof (cases "compiles re (filter_of r)")
        case nc: False
        then show ?thesis using Inr bf "3.prems" by simp
      next
        case c: True
        then have c': "\<not> \<not> compiles re (filter_of r)" by simp
        show ?thesis
        proof (cases "exec re False (filter_of r) (render ?full)")
          case NoMatch
          have "P (fst (populate_loop re directory rest r))"
            by (rule "3.IH"(3)[OF refl Inr bf c' NoMatch "3.prems"])
          then show ?thesis using Inr bf c NoMatch by simp
        next
          case (Match g)
          obtain r' where q: "queue_push ?full r = (r', None)"
            using queue_push_returns[of ?full r] by (cases "queue_push ?full r") simp
          have p': "P r'"
            using push[OF "3.prems", of ?full] by (simp add: q)
          have "P (fst (populate_loop re directory rest r'))"
            by (rule "3.IH"(4)[OF refl Inr bf c' Match q[symmetric] refl p'])
          then show ?thesis using Inr bf c Match q by simp
        qed
      qed
    qed
  qed
qed

lemma process_preserves:
  assumes nxt: "\<And>r. P r \<Longrightarrow> P (fst (snd (queue_next r)))"
    and wlk: "\<And>re fs depth r file. P r \<Longrightarrow> P (fst (walkPkgDir re fs depth file r))"
  shows "P r \<Longrightarrow> P (fst (processWalkQueue re fs depth r))"
proof (induction re fs depth r rule: processWalkQueue.induct)
  case (1 re fs depth r)
  show ?case
  proof (cases "queue (walkQueue r) = []")
    case True
    then show ?thesis using 1 by (simp add: processWalkQueue.simps)
  next
    case False
    obtain item r1 where qn: "queue_next r = (item, r1, None)"
      using queue_next_returns[of r] by (cases "queue_next r") auto
    have p1: "P r1" using nxt[OF "1.prems"(1)] by (simp add: qn)
    show ?thesis
    proof (cases item)
      case None
      then show ?thesis using False qn p1 by (simp add: processWalkQueue.simps[of _ _ _ r])
    next
      case (Some f)
      obtain r2 e where w: "walkPkgDir re fs depth f r1 = (r2, e)" by force
      have p2: "P r2" using wlk[OF p1, of re fs depth f] by (simp add: w)
      show ?thesis
      proof (cases e)
        case None
        have "P (fst (processWalkQueue re fs depth r2))"
          by (rule "1.IH"[OF False qn[symmetric] refl refl Some w[symmetric] None p2])
        then show ?thesis
          using False qn Some w None by (simp add: processWalkQueue.simps[of _ _ _ r])
      next
        case (Some err)
        then show ?thesis
          using False qn \<open>item = Some f\<close> w p2 by (simp add: processWalkQueue.simps[of _ _ _ r])
      qed
    qed
  qed
qed

lemma scan_preserves:
  assumes owe: "\<And>r. P r \<Longrightarrow> P (fst (onWalkQueueEmptied r))"
    and qlog: "\<And>r e a. P r \<Longrightarrow> P (log (EQueue, e, a) r)"
    and wq: "\<And>r q. P r \<Longrightarrow> P (r\<lparr>walkQueue := q\<rparr>)"
    and emit: "\<And>r event args. event \<noteq> ''ready'' \<Longrightarrow> P r \<Longrightarrow> P (fst (repo_emit event args r))"
    and wlk: "\<And>re fs depth r file. P r \<Longrightarrow> P (fst (walkPkgDir re fs depth file r))"
  shows "P r \<Longrightarrow> P (fst (scan re fs depth r))"
proof -
  have q1: "P (fst (queue_push item r))" if "P r" for r item
    using that by (rule queue_ops_preserve(1)[where P = P, rotated 3]) (intro owe qlog wq; assumption)+
  have q2: "P (fst (snd (queue_next r)))" if "P r" for r
    using that by (rule queue_ops_preserve(2)[where P = P, rotated 3]) (intro owe qlog wq; assumption)+
  have q3: "P (queue_once event l r)" if "P r" for r event l
    using that by (rule queue_ops_preserve(3)[where P = P, rotated 3]) (intro owe qlog wq; assumption)+
  have em: "P (fst (repo_emit ''error'' [AErr e] r))" if "P r" for r e
    using that by (intro emit) auto
  have pop: "P (fst (populateWalkQueue re d n r))" if "P r" for r d n
    using that by (rule populate_preserves(1)[where P = P, rotated 2]) (intro em q1; assumption)+
  have prc: "P (fst (processWalkQueue re fs depth r))" if "P r" for r
    using that by (rule process_preserves[where P = P, rotated 2]) (intro q2 wlk; assumption)+
  assume p: "P r"
  obtain r1 res1 where s: "repo_emit ''scanning'' [ARepo] r = (r1, res1)" by force
  have p1: "P r1"
    using emit[of "''scanning''" r "[ARepo]"] p by (simp add: s)
  let ?r2 = "queue_once ''emptied'' OnWalkQueueEmptied r1"
  obtain r3 res3 where w: "populateWalkQueue re (dir ?r2) (node_at fs (dir ?r2)) ?r2 = (r3, res3)"
    by force
  have p3: "P r3"
    using pop[OF q3[OF p1]] w by (metis fst_conv)
  show ?thesis
    using p1 p3 prc[OF p3]
    by (cases res1; cases res3) (simp_all add: scan_def s Let_def w)
qed

section \<open>The index of a Repository\<close>

text \<open>
  The invariant of the index: its keys are distinct, and every entry refers to a Package
  object that exists, is valid and carries the key as its identifier.
\<close>

definition index_inv :: "repository \<Rightarrow> bool" where
  "index_inv r =
     (distinct (map fst (packages r)) \<and>
      (\<forall>(g, pkg) \<in> set (packages r).
         pkg < length (heap r) \<and> isValid (heap r ! pkg) \<and> to_key (guid (heap r ! pkg)) = g))"

lemma set_update_subset: "set (AList.update k v al) \<subseteq> insert (k, v) (set al)"
  by (induction al) auto

lemma index_inv_walkPkgDir:
  assumes "index_inv r"
  shows "index_inv (fst (walkPkgDir re fs depth file r))"
proof -
  obtain p res where wp: "walk_prepare re fs depth (configParseRules (packageDefinition r))
             (fresh_package (dir r) file) = (p, res)" by force
  have old: "\<And>g pkg x. (g, pkg) \<in> set (packages r) \<Longrightarrow>
               pkg < length (heap r) \<and> (heap r @ [x]) ! pkg = heap r ! pkg"
    using assms by (auto simp: index_inv_def nth_append)
  show ?thesis
  proof (cases "res = None \<and> isValid p \<and> \<not> has_truthy_entry (packages r) (to_key (guid p))")
    case False
    then show ?thesis
      using assms old unfolding walkPkgDir_eq[OF wp] index_inv_def
      by (auto split: option.splits simp: less_Suc_eq)
  next
    case True
    let ?k = "to_key (guid p)"
    let ?x = "result_of r ''packageAdded''
                [AObj [(''repository'', ARepo), (''package'', APkg (length (heap r)))]]"
    have eq: "fst (walkPkgDir re fs depth file r) =
              r\<lparr>heap := heap r @ [marked ?x (clock r) p],
                packages := AList.update ?k (length (heap r)) (packages r),
                trace := trace r @ (EPackage (length (heap r)), ''created'', [APkg (length (heap r))])
                        # signals_of r ''packageAdded''
                            [AObj [(''repository'', ARepo), (''package'', APkg (length (heap r)))]],
                clock := ticked ?x (clock r)\<rparr>"
      using True by (simp add: walkPkgDir_eq[OF wp])
    have d: "distinct (map fst (AList.update ?k (length (heap r)) (packages r)))"
      using assms by (simp add: index_inv_def distinct_update)
    have m: "\<And>g pkg. (g, pkg) \<in> set (AList.update ?k (length (heap r)) (packages r)) \<Longrightarrow>
               (g, pkg) = (?k, length (heap r)) \<or> (g, pkg) \<in> set (packages r)"
      using set_update_subset[of ?k "length (heap r)" "packages r"] by auto
    show ?thesis
      unfolding eq index_inv_def using True assms old d
      by (auto simp: index_inv_def less_Suc_eq dest!: m)
  qed
qed

lemma index_inv_scan: "index_inv r \<Longrightarrow> index_inv (fst (scan re fs depth r))"
  by (rule scan_preserves[where P = index_inv])
     (simp_all add: index_inv_walkPkgDir,
      simp_all add: index_inv_def onWalkQueueEmptied_eq log_def repo_emit_eq)

text \<open>
  A client that calls \<open>scan\<close> again and again, awaiting each call; every call sees its own
  snapshot of the filesystem. A rejected scan leaves the state it had reached.
\<close>

definition scans :: "(regexp \<times> node \<times> nat) list \<Rightarrow> repository \<Rightarrow> repository" where
  "scans envs r = foldl (\<lambda>r' (re, fs, depth). fst (scan re fs depth r')) r envs"

lemma index_inv_scans: "index_inv r \<Longrightarrow> index_inv (scans envs r)"
  unfolding scans_def
  by (induction envs arbitrary: r) (auto simp: index_inv_scan)

lemma index_inv_new:
  "index_inv ((new_Repository options)\<lparr>listeners := ls, manager_events := ms\<rparr>)"
  by (simp add: index_inv_def new_Repository_def)

text \<open>
  Claim C1: whatever scans a Repository has run, every Package in its index satisfies
  \<open>isValid\<close>, that is, has a non-empty name and a non-empty identifier; a Package that a
  walk leaves without one of them is therefore never in the index. The Repository is a new
  one with any listeners attached to it and to its manager, the scans may return or be
  rejected, and the rule keys are required not to name other members of the Package object
  (\<open>rules_ok\<close>).
\<close>

theorem index_holds_only_valid_packages:
  assumes "rules_ok (configParseRules (opt_packageDefinition options))"
  shows "let r = scans envs ((new_Repository options)\<lparr>listeners := ls, manager_events := ms\<rparr>)
         in \<forall>(g, pkg) \<in> set (packages r). pkg < length (heap r) \<and> isValid (heap r ! pkg)"
  using index_inv_scans[OF index_inv_new[where options = options and ls = ls and ms = ms], of envs]
  by (auto simp: index_inv_def Let_def)

theorem index_holds_only_valid_packages_witness:
  "rules_ok (configParseRules (opt_packageDefinition demo_settings)) \<and>
   packages (scans [(demo_regexp, two_packages, 5)]
               ((new_Repository demo_settings)\<lparr>listeners := [], manager_events := []\<rparr>))
     = [(''A1'', 0), (''B2'', 1)] \<and>
   isValid (heap (scans [(demo_regexp, two_packages, 5)]
                    ((new_Repository demo_settings)\<lparr>listeners := [], manager_events := []\<rparr>)) ! 0) \<and>
   isValid (heap (scans [(demo_regexp, two_packages, 5)]
                    ((new_Repository demo_settings)\<lparr>listeners := [], manager_events := []\<rparr>)) ! 1)"
proof -
  let ?r = "scans [(demo_regexp, two_packages, 5)]
              ((new_Repository demo_settings)\<lparr>listeners := [], manager_events := []\<rparr>)"
  have ok: "rules_ok (configParseRules (opt_packageDefinition demo_settings))"
    by code_simp
  have idx: "packages ?r = [(''A1'', 0), (''B2'', 1)]"
    by code_simp
  from index_holds_only_valid_packages[OF ok, where envs = "[(demo_regexp, two_packages, 5)]"
      and ls = "[]" and ms = "[]"]
  have "\<forall>(g, pkg) \<in> set (packages ?r). pkg < length (heap ?r) \<and> isValid (heap ?r ! pkg)"
    by (simp add: Let_def)
  then have "isValid (heap ?r ! 0) \<and> isValid (heap ?r ! 1)"
    unfolding idx by simp
  with ok idx show ?thesis by simp
qed

section \<open>Packages that miss a required field\<close>

lemma filter_package_signals [simp]:
  "filter (\<lambda>(src, event, args). src = EPackage n) (repo_signals ls ms event' args') = []"
  by (simp add: filter_repo_signals[where P = "\<lambda>(src, event, args). src = EPackage n"])

lemma filter_own_signals [simp]:
  "filter (\<lambda>(src, event, args). src = ERepository) (repo_signals ls ms event' args')
     = [(ERepository, event', args')]"
  by (simp add: filter_repo_signals[where P = "\<lambda>(src, event, args). src = ERepository"])

text \<open>Package objects are only ever added to the heap: what is there stays as it is.\<close>

definition heap_extends :: "package list \<Rightarrow> repository \<Rightarrow> bool" where
  "heap_extends h r = (take (length h) (heap r) = h)"

lemma heap_extends_length: "heap_extends h r \<Longrightarrow> length h \<le> length (heap r)"
  unfolding heap_extends_def by (drule arg_cong[where f = length]) simp

lemma heap_extends_walkPkgDir:
  assumes "heap_extends h r"
  shows "heap_extends h (fst (walkPkgDir re fs depth file r))"
proof -
  obtain p res where wp: "walk_prepare re fs depth (configParseRules (packageDefinition r))
             (fresh_package (dir r) file) = (p, res)" by force
  show ?thesis
    using assms heap_extends_length[OF assms] unfolding walkPkgDir_eq[OF wp] heap_extends_def
    by (auto split: option.splits)
qed

lemma heap_extends_scan: "heap_extends h r \<Longrightarrow> heap_extends h (fst (scan re fs depth r))"
  by (rule scan_preserves[where P = "heap_extends h"])
     (simp_all add: heap_extends_walkPkgDir,
      simp_all add: heap_extends_def onWalkQueueEmptied_eq log_def repo_emit_eq)

lemma heap_extends_scans: "heap_extends h r \<Longrightarrow> heap_extends h (scans envs r)"
  unfolding scans_def
  by (induction envs arbitrary: r) (auto simp: heap_extends_scan)



section \<open>Duplicate identifiers\<close>

text \<open>
  Claim C2: when a Package with the listeners of \<open>_walkPkgDir\<close> signals \<open>created\<close> and
  its identifier is already a key of the index, the index is left as it is (the entry found
  first stays), the Package is appended to \<open>invalidPackages\<close>, and the Repository signals
  an error that carries \<open>RepositoryNotUniquePackageError\<close> and the Package; the emit of
  \<open>created\<close> throws exactly when the emit of that error does. And in every state that
  scans of a new Repository reach, the keys of the index are distinct: there is at most one
  entry per identifier.
\<close>

theorem duplicate_identifier_is_rejected:
  assumes "rules_ok (configParseRules (opt_packageDefinition options))"
    and "plisteners (heap r ! pkg) = [(''error'', OnPkgError), (''created'', OnPkgCreated)]"
    and "map_of (packages r) (to_key (guid (heap r ! pkg))) = Some first"
  shows "let r' = fst (pkg_emit pkg ''created'' [APkg pkg] r) in
           packages r' = packages r \<and>
           map_of (packages r') (to_key (guid (heap r ! pkg))) = Some first \<and>
           invalidPackages r' = invalidPackages r @ [pkg] \<and>
           take 2 (drop (length (trace r)) (trace r'))
             = [(EPackage pkg, ''created'', [APkg pkg]),
                (ERepository, ''error'', [AErr RepositoryNotUniquePackageError, APkg pkg])] \<and>
           snd (pkg_emit pkg ''created'' [APkg pkg] r)
             = snd (repo_emit ''error'' [AErr RepositoryNotUniquePackageError, APkg pkg] r) \<and>
           distinct (map fst (packages (scans envs
             ((new_Repository options)\<lparr>listeners := ls, manager_events := ms\<rparr>))))"
proof -
  have d: "distinct (map fst (packages (scans envs
             ((new_Repository options)\<lparr>listeners := ls, manager_events := ms\<rparr>))))"
    using index_inv_scans[OF index_inv_new[where options = options and ls = ls and ms = ms], of envs]
    by (simp add: index_inv_def)
  have "has_truthy_entry (packages r) (to_key (guid (heap r ! pkg)))"
    using assms(3) by (simp add: has_truthy_entry_def)
  then show ?thesis
    using d assms(3)
    by (simp add: Let_def pkg_emit_created[OF assms(2)] addPkg_eq log_def repo_signals_def
          repo_emit_eq)
qed

theorem duplicate_identifier_is_rejected_witness:
  "(let r = (fst (scan demo_regexp one_package 5 bare_repository))
              \<lparr>heap := heap (fst (scan demo_regexp one_package 5 bare_repository)) @
                 [(fresh_package [''repo''] [''repo'', ''alpha'', ''README.md''])
                    \<lparr>name := Str ''Alpha'', guid := Str ''A1''\<rparr>]\<rparr>;
        r' = fst (pkg_emit 1 ''created'' [APkg 1] r)
    in map_of (packages r) ''A1'' = Some 0 \<and>
       packages r' = [(''A1'', 0)] \<and> invalidPackages r' = [1] \<and>
       snd (pkg_emit 1 ''created'' [APkg 1] r) = Some RepositoryNotUniquePackageError \<and>
       distinct (map fst (packages (scans [(demo_regexp, two_packages, 5), (demo_regexp, two_packages, 5)]
                                      ((new_Repository demo_settings)
                                         \<lparr>listeners := [], manager_events := []\<rparr>)))))"
proof -
  let ?r1 = "fst (scan demo_regexp one_package 5 bare_repository)"
  let ?r = "?r1\<lparr>heap := heap ?r1 @
                 [(fresh_package [''repo''] [''repo'', ''alpha'', ''README.md''])
                    \<lparr>name := Str ''Alpha'', guid := Str ''A1''\<rparr>]\<rparr>"
  have h1: "rules_ok (configParseRules (opt_packageDefinition demo_settings))"
    by code_simp
  have h2: "plisteners (heap ?r ! 1) = [(''error'', OnPkgError), (''created'', OnPkgCreated)]"
    by code_simp
  have g: "to_key (guid (heap ?r ! 1)) = ''A1''"
    by code_simp
  have p: "packages ?r = [(''A1'', 0)]" "invalidPackages ?r = []"
    by code_simp+
  have h3: "map_of (packages ?r) (to_key (guid (heap ?r ! 1))) = Some 0"
    unfolding g p by simp
  have x: "snd (repo_emit ''error'' [AErr RepositoryNotUniquePackageError, APkg 1] ?r)
             = Some RepositoryNotUniquePackageError"
    by code_simp
  from duplicate_identifier_is_rejected[OF h1 h2 h3,
      where envs = "[(demo_regexp, two_packages, 5), (demo_regexp, two_packages, 5)]"
        and ls = "[]" and ms = "[]"]
  show ?thesis
    unfolding Let_def p g x by simp
qed

section \<open>The ready signal\<close>

text \<open>\<open>readys\<close> counts the \<open>ready\<close> signals that the Repository has emitted so far.\<close>

fun is_ready :: "signal \<Rightarrow> bool" where
  "is_ready (src, event, args) = (src = ERepository \<and> event = ''ready'')"

definition readys :: "repository \<Rightarrow> nat" where
  "readys r = length (filter is_ready (trace r))"

lemma filter_ready_repo_signals:
  "filter is_ready (repo_signals ls ms event args) =
     (if event = ''ready'' then [(ERepository, event, args)] else [])"
  by (simp add: filter_repo_signals[where P = is_ready])

text \<open>
  \<open>ready_returns\<close>: the emit of \<open>ready\<close> returns. It does unless \<open>_onRepoError\<close> listens
  to \<open>ready\<close> while nobody listens to the manager's \<open>error\<close>. No step of a scan changes a
  listener table of the Repository or of the manager.
\<close>

definition ready_returns :: "repository \<Rightarrow> bool" where
  "ready_returns r = returns (listeners r) (manager_events r) ''ready''"

definition ready_once :: "repository \<Rightarrow> bool" where
  "ready_once r = (ready_returns r \<and> readys r \<le> 1 \<and> (readys r = 1 \<longrightarrow> hasCompletedScan r))"

definition ready_done :: "nat \<Rightarrow> repository \<Rightarrow> bool" where
  "ready_done n r = (hasCompletedScan r \<and> readys r = n)"

lemma readys_walkPkgDir:
  "readys (fst (walkPkgDir re fs depth file r)) = readys r \<and>
   hasCompletedScan (fst (walkPkgDir re fs depth file r)) = hasCompletedScan r \<and>
   ready_returns (fst (walkPkgDir re fs depth file r)) = ready_returns r"
proof -
  obtain p res where wp: "walk_prepare re fs depth (configParseRules (packageDefinition r))
             (fresh_package (dir r) file) = (p, res)" by force
  show ?thesis
    unfolding walkPkgDir_eq[OF wp]
    by (simp add: readys_def ready_returns_def filter_ready_repo_signals split: option.splits)
qed

lemma ready_once_scan: "ready_once r \<Longrightarrow> ready_once (fst (scan re fs depth r))"
proof (rule scan_preserves[where P = ready_once])
  show "ready_once (fst (onWalkQueueEmptied r))" if "ready_once r" for r
    using that unfolding onWalkQueueEmptied_eq ready_once_def ready_returns_def
    by (auto simp: readys_def filter_ready_repo_signals le_Suc_eq)
  show "ready_once (fst (repo_emit event args r))" if "event \<noteq> ''ready''" "ready_once r"
    for r event args
    using that unfolding repo_emit_eq ready_once_def ready_returns_def
    by (simp add: readys_def filter_ready_repo_signals)
qed (simp_all add: ready_once_def readys_walkPkgDir,
     simp_all add: readys_def log_def ready_returns_def)

lemma ready_done_scan: "ready_done n r \<Longrightarrow> ready_done n (fst (scan re fs depth r))"
proof (rule scan_preserves[where P = "ready_done n"])
  show "ready_done n (fst (onWalkQueueEmptied r))" if "ready_done n r" for r
    using that unfolding onWalkQueueEmptied_eq ready_done_def
    by (auto simp: readys_def)
  show "ready_done n (fst (repo_emit event args r))" if "event \<noteq> ''ready''" "ready_done n r"
    for r event args
    using that unfolding repo_emit_eq ready_done_def
    by (simp add: readys_def filter_ready_repo_signals)
qed (simp_all add: ready_done_def readys_walkPkgDir, simp_all add: readys_def log_def)

lemma ready_once_scans: "ready_once r \<Longrightarrow> ready_once (scans envs r)"
  unfolding scans_def
  by (induction envs arbitrary: r) (auto simp: ready_once_scan)

lemma ready_once_new:
  assumes "(''ready'', OnRepoError) \<in> set ls \<longrightarrow> ''error'' \<in> set ms"
  shows "ready_once ((new_Repository options)\<lparr>listeners := ls, manager_events := ms\<rparr>)"
  using assms
  by (auto simp: ready_once_def ready_returns_def returns_def unhandled_def readys_def
        new_Repository_def)

text \<open>
  What a scan does to \<open>lastscan\<close>. From the moment \<open>scan\<close> has registered its listener for
  the queue's \<open>emptied\<close> signal, either that listener is still pending and the queue has not
  signalled \<open>emptied\<close> since the scan began (at trace length \<open>n\<close>, clock \<open>c\<close>), or
  \<open>lastscan\<close> holds a time not before the beginning of the scan.
\<close>

fun is_emptied :: "signal \<Rightarrow> bool" where
  "is_emptied (src, event, args) = (src = EQueue \<and> event = ''emptied'')"

lemma is_emptied_repo_signals [simp]: "list_ex is_emptied (repo_signals ls ms event args) = False"
proof -
  have "filter is_emptied (repo_signals ls ms event args) = []"
    by (simp add: filter_repo_signals[where P = is_emptied])
  then show ?thesis
    by (simp add: list_ex_iff filter_empty_conv)
qed

definition watch_base :: "nat \<Rightarrow> nat \<Rightarrow> repository \<Rightarrow> bool" where
  "watch_base n c r = (ready_returns r \<and> n \<le> length (trace r) \<and> c \<le> clock r)"

definition watch_done :: "nat \<Rightarrow> nat \<Rightarrow> repository \<Rightarrow> bool" where
  "watch_done n c r = (watch_base n c r \<and> (\<exists>t. lastscan r = Some t \<and> c \<le> t))"

definition scan_watch :: "nat \<Rightarrow> nat \<Rightarrow> repository \<Rightarrow> bool" where
  "scan_watch n c r =
     (watch_base n c r \<and>
      ((\<exists>t. lastscan r = Some t \<and> c \<le> t) \<or>
       ((''emptied'', OnWalkQueueEmptied) \<in> set (qonce (walkQueue r)) \<and>
        \<not> list_ex is_emptied (drop n (trace r)))))"

lemma owe_done: "watch_base n c r \<Longrightarrow> watch_done n c (fst (onWalkQueueEmptied r))"
  by (simp add: onWalkQueueEmptied_eq watch_base_def watch_done_def ready_returns_def)

lemma watch_done_base: "watch_done n c r \<Longrightarrow> watch_base n c r"
  by (simp add: watch_done_def)

lemma watch_done_watch: "watch_done n c r \<Longrightarrow> scan_watch n c r"
  by (simp add: watch_done_def scan_watch_def)

lemma scan_watch_base: "scan_watch n c r \<Longrightarrow> watch_base n c r"
  by (simp add: scan_watch_def)

lemma dispatch_done:
  assumes "args = [] \<or> (\<exists>item. args = [APath item])"
  shows "watch_done n c r \<Longrightarrow> watch_done n c (fst (dispatch run_repository_listener event args ls r))"
  by (rule dispatch_queue_preserves[where P = "watch_done n c", OF _ assms])
     (auto intro: owe_done watch_done_base)

lemma dispatch_base:
  assumes "args = [] \<or> (\<exists>item. args = [APath item])"
  shows "watch_base n c r \<Longrightarrow> watch_base n c (fst (dispatch run_repository_listener event args ls r))"
  by (rule dispatch_queue_preserves[where P = "watch_base n c", OF _ assms])
     (auto intro: owe_done watch_done_base)

lemma dispatch_watch:
  assumes "args = [] \<or> (\<exists>item. args = [APath item])"
  shows "scan_watch n c r \<Longrightarrow> scan_watch n c (fst (dispatch run_repository_listener event args ls r))"
  by (rule dispatch_queue_preserves[where P = "scan_watch n c", OF _ assms])
     (auto intro: owe_done watch_done_watch scan_watch_base)

lemma dispatch_hits:
  assumes args: "args = [] \<or> (\<exists>item. args = [APath item])"
  shows "watch_base n c r \<Longrightarrow> (event, OnWalkQueueEmptied) \<in> set ls \<Longrightarrow>
         watch_done n c (fst (dispatch run_repository_listener event args ls r))"
proof (induction ls arbitrary: r)
  case Nil
  then show ?case by simp
next
  case (Cons a ls)
  obtain e l where a: "a = (e, l)" by (cases a)
  let ?r' = "if e = event \<and> l = OnWalkQueueEmptied then fst (onWalkQueueEmptied r) else r"
  have step: "dispatch run_repository_listener event args (a # ls) r =
              dispatch run_repository_listener event args ls ?r'"
    by (simp add: a run_on_queue[OF args, of l r])
  show ?case
  proof (cases "a = (event, OnWalkQueueEmptied)")
    case True
    then have "watch_done n c ?r'"
      using owe_done[OF Cons.prems(1)] by (simp add: a)
    then show ?thesis
      unfolding step by (rule dispatch_done[OF args])
  next
    case False
    then have "(event, OnWalkQueueEmptied) \<in> set ls"
      using Cons.prems(2) by simp
    moreover have "watch_base n c ?r'"
      using Cons.prems(1) owe_done[OF Cons.prems(1)] by (simp add: watch_done_def)
    ultimately show ?thesis
      unfolding step by (intro Cons.IH)
  qed
qed

lemma queue_emit_watch:
  assumes args: "args = [] \<or> (\<exists>item. args = [APath item])"
    and ev: "event \<noteq> ''error''"
    and w: "scan_watch n c r"
  shows "scan_watch n c (fst (queue_emit event args r))"
proof -
  let ?r2 = "(log (EQueue, event, args) r)
               \<lparr>walkQueue := (walkQueue (log (EQueue, event, args) r))
                  \<lparr>qonce := filter (\<lambda>(e, l). e \<noteq> event) (qonce (walkQueue r))\<rparr>\<rparr>"
  have qe: "queue_emit event args r = dispatch run_repository_listener event args (qonce (walkQueue r)) ?r2"
    using ev by (simp add: queue_emit_def Let_def unhandled_def)
  have base: "watch_base n c ?r2"
    using w by (simp add: scan_watch_def watch_base_def log_def ready_returns_def)
  consider (finished) "\<exists>t. lastscan r = Some t \<and> c \<le> t"
    | (pending) "(''emptied'', OnWalkQueueEmptied) \<in> set (qonce (walkQueue r))"
                "\<not> list_ex is_emptied (drop n (trace r))"
    using w by (auto simp: scan_watch_def)
  then show ?thesis
  proof cases
    case finished
    then have "watch_done n c ?r2"
      using base by (simp add: watch_done_def log_def)
    then show ?thesis
      unfolding qe by (intro watch_done_watch dispatch_done[OF args])
  next
    case pending
    show ?thesis
    proof (cases "event = ''emptied''")
      case True
      show ?thesis
        unfolding qe using pending(1) True
        by (intro watch_done_watch dispatch_hits[OF args base]) simp
    next
      case False
      have "scan_watch n c ?r2"
        using base pending False w
        by (simp add: scan_watch_def watch_base_def log_def)
      then show ?thesis
        unfolding qe by (rule dispatch_watch[OF args])
    qed
  qed
qed

lemma scan_watch_queue [simp]:
  "scan_watch n c (r\<lparr>walkQueue := (walkQueue r)\<lparr>queue := q\<rparr>\<rparr>) = scan_watch n c r"
  by (simp add: scan_watch_def watch_base_def ready_returns_def)

lemma queue_push_watch: "scan_watch n c r \<Longrightarrow> scan_watch n c (fst (queue_push item r))"
  unfolding queue_push_def by (rule queue_emit_watch) simp_all

lemma queue_next_watch: "scan_watch n c r \<Longrightarrow> scan_watch n c (fst (snd (queue_next r)))"
proof -
  assume w: "scan_watch n c r"
  let ?r1 = "r\<lparr>walkQueue := (walkQueue r)\<lparr>queue := tl (queue (walkQueue r))\<rparr>\<rparr>"
  obtain r2 res where d: "queue_emit ''dequeued'' [] ?r1 = (r2, res)" by force
  have w2: "scan_watch n c r2"
    using queue_emit_watch[of "[]" "''dequeued''" n c ?r1] w by (simp add: d)
  obtain r3 res3 where e: "queue_emit ''emptied'' [] r2 = (r3, res3)" by force
  have w3: "scan_watch n c r3"
    using queue_emit_watch[of "[]" "''emptied''" n c r2] w2 by (simp add: e)
  show ?thesis
    using w2 w3 by (cases res) (simp_all add: queue_next_def Let_def d e)
qed

lemma repo_emit_watch: "scan_watch n c r \<Longrightarrow> scan_watch n c (fst (repo_emit event args r))"
  by (auto simp: repo_emit_eq scan_watch_def watch_base_def ready_returns_def)

lemma walkPkgDir_watch:
  assumes "scan_watch n c r"
  shows "scan_watch n c (fst (walkPkgDir re fs depth file r))"
proof -
  obtain p res where wp: "walk_prepare re fs depth (configParseRules (packageDefinition r))
             (fresh_package (dir r) file) = (p, res)" by force
  have "c \<le> clock r \<Longrightarrow> c \<le> ticked x (clock r)" for x
    by (rule order_trans[OF _ ticked_le])
  then show ?thesis
    using assms unfolding walkPkgDir_eq[OF wp] scan_watch_def watch_base_def ready_returns_def
    by (auto split: option.splits)
qed

lemma scan_sets_lastscan:
  assumes rr: "ready_returns r"
    and em: "list_ex is_emptied (drop (length (trace r)) (trace (fst (scan re fs depth r))))"
  shows "\<exists>t. lastscan (fst (scan re fs depth r)) = Some t \<and> clock r \<le> t"
proof -
  let ?n = "length (trace r)" and ?c = "clock r"
  obtain r1 res1 where s: "repo_emit ''scanning'' [ARepo] r = (r1, res1)" by force
  have r1: "r1 = r\<lparr>trace := trace r @ signals_of r ''scanning'' [ARepo]\<rparr>"
    using s by (simp add: repo_emit_eq)
  show ?thesis
  proof (cases res1)
    case (Some e)
    then have "fst (scan re fs depth r) = r1"
      by (simp add: scan_def s)
    with em show ?thesis
      by (simp add: r1)
  next
    case None
    let ?r2 = "queue_once ''emptied'' OnWalkQueueEmptied r1"
    obtain r3 res3 where w: "populateWalkQueue re (dir ?r2) (node_at fs (dir ?r2)) ?r2 = (r3, res3)"
      by force
    have "scan_watch ?n ?c ?r2"
      using rr by (simp add: r1 scan_watch_def watch_base_def queue_once_def ready_returns_def)
    then have "scan_watch ?n ?c (fst (populateWalkQueue re (dir ?r2) (node_at fs (dir ?r2)) ?r2))"
      by (rule populate_preserves(1)[where P = "scan_watch ?n ?c", rotated 2])
         (intro repo_emit_watch queue_push_watch; assumption)+
    then have w3: "scan_watch ?n ?c r3"
      by (simp add: w)
    then have "scan_watch ?n ?c (fst (processWalkQueue re fs depth r3))"
      by (rule process_preserves[where P = "scan_watch ?n ?c", rotated 2])
         (intro queue_next_watch walkPkgDir_watch; assumption)+
    with w3 have "scan_watch ?n ?c (fst (scan re fs depth r))"
      using None by (cases res3) (simp_all add: scan_def s Let_def w)
    with em show ?thesis
      by (auto simp: scan_watch_def)
  qed
qed



section \<open>What the tree walk does\<close>

text \<open>
  The tree walk of \<open>_populateWalkQueue\<close> does two things to the Repository: it pushes a
  path into the queue, or it signals an error. Which paths it pushes, and whether it is
  rejected, depends on the tree, the filter, the engine and on whether the emit of \<open>error\<close>
  returns (\<open>handles\<close>), not on the rest of the state: \<open>tree_walk\<close> computes both, and
  \<open>populate_walk\<close> shows that they are what the walk does.
\<close>

definition handles :: "repository \<Rightarrow> bool" where
  "handles r = returns (listeners r) (manager_events r) ''error''"

function tree_walk :: "regexp \<Rightarrow> string \<Rightarrow> bool \<Rightarrow> fpath \<Rightarrow> node \<Rightarrow> fpath list \<times> js_error option"
and loop_walk ::
  "regexp \<Rightarrow> string \<Rightarrow> bool \<Rightarrow> fpath \<Rightarrow> (string \<times> node) list \<Rightarrow> fpath list \<times> js_error option"
where
  "tree_walk re flt h directory n =
     (case (case readdirAsync n of
              Inl err \<Rightarrow> ([], Some err)
            | Inr files \<Rightarrow> loop_walk re flt h directory files) of
        (found, Some err) \<Rightarrow> (found, if h then None else Some (thrown (AErr err)))
      | (found, None) \<Rightarrow> (found, None))"
| "loop_walk re flt h directory [] = ([], None)"
| "loop_walk re flt h directory ((entry, n) # rest) =
     (case isDirectory n of
        Inl err \<Rightarrow> ([], Some err)
      | Inr True \<Rightarrow>
          (case tree_walk re flt h (resolve directory entry) n of
             (found, Some err) \<Rightarrow> (found, Some err)
           | (found, None) \<Rightarrow>
               (found @ fst (loop_walk re flt h directory rest),
                snd (loop_walk re flt h directory rest)))
      | Inr False \<Rightarrow>
          (if \<not> compiles re flt then ([], Some SyntaxError)
           else case exec re False flt (render (resolve directory entry)) of
             NoMatch \<Rightarrow> loop_walk re flt h directory rest
           | Match g \<Rightarrow>
               (resolve directory entry # fst (loop_walk re flt h directory rest),
                snd (loop_walk re flt h directory rest))))"
  by pat_completeness auto
termination
  by (relation "measure (\<lambda>x. case x of
         Inl (re, flt, h, d, n) \<Rightarrow> size n
       | Inr (re, flt, h, d, files) \<Rightarrow> size_list (size_prod (\<lambda>_. 0) size) files)")
     (auto dest: readdirAsync_size)

declare tree_walk.simps [simp del]

definition same_config :: "repository \<Rightarrow> repository \<Rightarrow> bool" where
  "same_config r r' =
     (packageDefinition r' = packageDefinition r \<and> dir r' = dir r \<and>
      listeners r' = listeners r \<and> manager_events r' = manager_events r)"

lemma same_config_refl [simp]: "same_config r r"
  by (simp add: same_config_def)

lemma same_config_emit: "same_config r0 r \<Longrightarrow> same_config r0 (fst (repo_emit event args r))"
  by (simp add: same_config_def repo_emit_eq)

lemma same_config_push: "same_config r0 r \<Longrightarrow> same_config r0 (fst (queue_push item r))"
  by (rule queue_ops_preserve(1)[where P = "same_config r0"])
     (simp_all add: same_config_def onWalkQueueEmptied_eq log_def)

lemma same_config_next: "same_config r0 r \<Longrightarrow> same_config r0 (fst (snd (queue_next r)))"
  by (rule queue_ops_preserve(2)[where P = "same_config r0"])
     (simp_all add: same_config_def onWalkQueueEmptied_eq log_def)

lemma same_config_params:
  "same_config r r' \<Longrightarrow> filter_of r' = filter_of r \<and> handles r' = handles r"
  by (simp add: same_config_def filter_of_def handles_def)

lemma queue_queue_push [simp]:
  "queue (walkQueue (fst (queue_push item r))) = queue (walkQueue r) @ [item]"
  by (simp add: queue_push_def)

lemma emit_error_result:
  "snd (repo_emit ''error'' [AErr err] r) = (if handles r then None else Some (thrown (AErr err)))"
  by (simp add: repo_emit_eq repo_result_eq handles_def raised_def nth_arg_def)

lemma populate_walk:
  "same_config r (fst (populateWalkQueue re d n r)) \<and>
   queue (walkQueue (fst (populateWalkQueue re d n r)))
     = queue (walkQueue r) @ fst (tree_walk re (filter_of r) (handles r) d n) \<and>
   snd (populateWalkQueue re d n r) = snd (tree_walk re (filter_of r) (handles r) d n)"
  "same_config r (fst (populate_loop re d files r)) \<and>
   queue (walkQueue (fst (populate_loop re d files r)))
     = queue (walkQueue r) @ fst (loop_walk re (filter_of r) (handles r) d files) \<and>
   snd (populate_loop re d files r) = snd (loop_walk re (filter_of r) (handles r) d files)"
proof (induction re d n r and re d files r rule: populateWalkQueue_populate_loop.induct)
  case (1 re directory n r)
  show ?case
  proof (cases "readdirAsync n")
    case (Inl err')
    then show ?thesis
      by (simp add: populateWalkQueue.simps tree_walk.simps same_config_emit emit_error_result)
  next
    case (Inr files)
    obtain r' res where l: "populate_loop re directory files r = (r', res)" by force
    obtain found res' where t: "loop_walk re (filter_of r) (handles r) directory files = (found, res')"
      by force
    have ih: "same_config r r' \<and> queue (walkQueue r') = queue (walkQueue r) @ found \<and> res = res'"
      using "1.IH"[OF Inr] by (simp add: l t)
    then have h: "handles r' = handles r"
      using same_config_params by blast
    show ?thesis
    proof (cases res)
      case None
      then show ?thesis
        using ih by (simp add: populateWalkQueue.simps tree_walk.simps Inr l t)
    next
      case (Some e)
      then show ?thesis
        using ih h same_config_emit[of r r' "''error''" "[AErr e]"]
        by (simp add: populateWalkQueue.simps tree_walk.simps Inr l t emit_error_result)
    qed
  qed
next
  case (2 re directory r)
  show ?case by simp
next
  case (3 re directory f n rest r)
  let ?full = "resolve directory f"
  let ?flt = "filter_of r" and ?h = "handles r"
  show ?case
  proof (cases "isDirectory n")
    case (Inl err')
    then show ?thesis by simp
  next
    case (Inr b)
    show ?thesis
    proof (cases b)
      case True
      then have bt: "b = True" by simp
      obtain r' res where w: "populateWalkQueue re ?full n r = (r', res)" by force
      obtain found res' where t: "tree_walk re ?flt ?h ?full n = (found, res')" by force
      have ih1: "same_config r r' \<and> queue (walkQueue r') = queue (walkQueue r) @ found \<and> res = res'"
        using "3.IH"(1)[OF refl Inr bt] by (simp add: w t)
      then have par: "filter_of r' = ?flt" "handles r' = ?h"
        using same_config_params[of r r'] by simp_all
      show ?thesis
      proof (cases res)
        case (Some e)
        then show ?thesis using ih1 by (simp add: Inr bt w t)
      next
        case None
        obtain r'' res2 where l: "populate_loop re directory rest r' = (r'', res2)" by force
        obtain found2 res2' where t2: "loop_walk re ?flt ?h directory rest = (found2, res2')" by force
        have ih2: "same_config r' r'' \<and> queue (walkQueue r'') = queue (walkQueue r') @ found2 \<and> res2 = res2'"
          using "3.IH"(2)[OF refl Inr bt w[symmetric] None] by (simp add: l t2 par)
        then have "same_config r r''"
          using ih1 by (simp add: same_config_def)
        then show ?thesis
          using ih1 ih2 None by (simp add: Inr bt w t l t2)
      qed
    next
      case False
      then have bf: "b = False" by simp
      show ?thesis
      proof (cases "compiles re ?flt")
        case nc: False
        then show ?thesis using Inr bf by simp
      next
        case c: True
        then have c': "\<not> \<not> compiles re ?flt" by simp
        show ?thesis
        proof (cases "exec re False ?flt (render ?full)")
          case NoMatch
          show ?thesis
            using "3.IH"(3)[OF refl Inr bf c' NoMatch] Inr bf c NoMatch by simp
        next
          case (Match g)
          obtain r' where q: "queue_push ?full r = (r', None)"
            using queue_push_returns[of ?full r] by (cases "queue_push ?full r") simp
          have c1: "same_config r r'"
            using same_config_push[of r r ?full] by (simp add: q)
          have q1: "queue (walkQueue r') = queue (walkQueue r) @ [?full]"
            using queue_queue_push[of ?full r] by (simp add: q)
          have par: "filter_of r' = ?flt" "handles r' = ?h"
            using same_config_params[OF c1] by simp_all
          obtain r'' res2 where l: "populate_loop re directory rest r' = (r'', res2)" by force
          obtain found2 res2' where t2: "loop_walk re ?flt ?h directory rest = (found2, res2')" by force
          have ih2: "same_config r' r'' \<and> queue (walkQueue r'') = queue (walkQueue r') @ found2 \<and> res2 = res2'"
            using "3.IH"(4)[OF refl Inr bf c' Match q[symmetric] refl] by (simp add: l t2 par)
          then have "same_config r r''"
            using c1 by (simp add: same_config_def)
          then show ?thesis
            using ih2 q1 by (simp add: Inr bf c Match q l t2)
        qed
      qed
    qed
  qed
qed

text \<open>
  While the tree walk has pushed nothing, it has only added signals to the trace, none of
  them a signal of the queue or a \<open>ready\<close> of the Repository.
\<close>

fun is_drain :: "signal \<Rightarrow> bool" where
  "is_drain (src, event, args) = (src = EQueue \<or> (src = ERepository \<and> event = ''ready''))"

definition quiet :: "repository \<Rightarrow> repository \<Rightarrow> bool" where
  "quiet r0 r = (\<exists>sigs. r = r0\<lparr>trace := trace r0 @ sigs\<rparr> \<and> filter is_drain sigs = [])"

definition quiet_or_grown :: "repository \<Rightarrow> repository \<Rightarrow> bool" where
  "quiet_or_grown r0 r =
     (quiet r0 r \<or> length (queue (walkQueue r0)) < length (queue (walkQueue r)))"

lemma quiet_refl [simp]: "quiet r r"
  unfolding quiet_def by (rule exI[where x = "[]"]) simp

lemma quiet_emit:
  assumes "event \<noteq> ''ready''" and "quiet r0 r"
  shows "quiet r0 (fst (repo_emit event args r))"
proof -
  from assms(2) obtain sigs where r: "r = r0\<lparr>trace := trace r0 @ sigs\<rparr>"
    and f: "filter is_drain sigs = []"
    unfolding quiet_def by blast
  have same: "listeners r = listeners r0" "manager_events r = manager_events r0"
    by (subst r, simp)+
  have "fst (repo_emit event args r) = r\<lparr>trace := trace r @ signals_of r0 event args\<rparr>"
    by (simp add: repo_emit_eq same)
  also have "\<dots> = r0\<lparr>trace := trace r0 @ (sigs @ signals_of r0 event args)\<rparr>"
    by (subst r, subst r) simp
  finally have "fst (repo_emit event args r)
                  = r0\<lparr>trace := trace r0 @ (sigs @ signals_of r0 event args)\<rparr>" .
  moreover have "filter is_drain (sigs @ signals_of r0 event args) = []"
    using f assms(1) by (simp add: filter_repo_signals[where P = is_drain])
  ultimately show ?thesis
    unfolding quiet_def by blast
qed

lemma quiet_or_grown_walk:
  assumes "quiet_or_grown r0 r"
  shows "quiet_or_grown r0 (fst (populateWalkQueue re d n r))"
proof (rule populate_preserves(1)[where P = "quiet_or_grown r0"])
  show "quiet_or_grown r0 (fst (repo_emit ''error'' [AErr e] r))" if "quiet_or_grown r0 r" for r e
    using that quiet_emit[of "''error''" r0 r "[AErr e]"] by (auto simp: quiet_or_grown_def)
  show "quiet_or_grown r0 (fst (queue_push item r))" if "quiet_or_grown r0 r" for r item
  proof -
    have "length (queue (walkQueue r0)) \<le> length (queue (walkQueue r))"
      using that by (auto simp: quiet_or_grown_def quiet_def)
    then show ?thesis
      by (simp add: quiet_or_grown_def)
  qed
qed (rule assms)

lemma tree_walk_handled: "snd (tree_walk re flt True d n) = None"
  by (simp add: tree_walk.simps split: prod.splits option.splits sum.splits)



section \<open>Scanning the same tree again\<close>

text \<open>
  \<open>collisions\<close> counts the duplicate-identifier errors that the Repository has signalled:
  the \<open>error\<close> signals that carry \<open>RepositoryNotUniquePackageError\<close> and a Package.
\<close>

fun is_collision :: "signal \<Rightarrow> bool" where
  "is_collision (src, event, args) =
     (src = ERepository \<and> event = ''error'' \<and>
      (case args of
         [AErr e, APkg pkg] \<Rightarrow> e = RepositoryNotUniquePackageError
       | _ \<Rightarrow> False))"

definition collisions :: "repository \<Rightarrow> nat" where
  "collisions r = length (filter is_collision (trace r))"

lemma filter_collision_repo_signals:
  "filter is_collision (repo_signals ls ms event args) =
     (if is_collision (ERepository, event, args) then [(ERepository, event, args)] else [])"
  by (simp add: filter_repo_signals[where P = is_collision])

text \<open>
  \<open>same_frame r r'\<close>: the step from \<open>r\<close> to \<open>r'\<close> has left the index, the invalid list, the
  Package objects, the configuration, the listeners and the number of collisions alone.
\<close>

definition same_frame :: "repository \<Rightarrow> repository \<Rightarrow> bool" where
  "same_frame r r' =
     (packages r' = packages r \<and> invalidPackages r' = invalidPackages r \<and> heap r' = heap r \<and>
      same_config r r' \<and> collisions r' = collisions r)"

lemma same_frame_refl [simp]: "same_frame r r"
  by (simp add: same_frame_def)

lemma same_frame_owe: "same_frame r0 r \<Longrightarrow> same_frame r0 (fst (onWalkQueueEmptied r))"
  by (simp add: same_frame_def same_config_def onWalkQueueEmptied_eq collisions_def
        filter_collision_repo_signals)

lemma same_frame_log: "same_frame r0 r \<Longrightarrow> same_frame r0 (log (EQueue, e, a) r)"
  by (simp add: same_frame_def same_config_def log_def collisions_def)

lemma same_frame_wq: "same_frame r0 r \<Longrightarrow> same_frame r0 (r\<lparr>walkQueue := q\<rparr>)"
  by (simp add: same_frame_def same_config_def collisions_def)

lemma same_frame_queue_next: "same_frame r (fst (snd (queue_next r)))"
  by (rule queue_ops_preserve(2)[where P = "same_frame r"])
     (simp_all add: same_frame_owe same_frame_log same_frame_wq)

lemma same_frame_queue_push: "same_frame r0 r \<Longrightarrow> same_frame r0 (fst (queue_push item r))"
  by (rule queue_ops_preserve(1)[where P = "same_frame r0"])
     (simp_all add: same_frame_owe same_frame_log same_frame_wq)

lemma same_frame_emit:
  "\<not> is_collision (ERepository, event, args) \<Longrightarrow> same_frame r0 r \<Longrightarrow>
   same_frame r0 (fst (repo_emit event args r))"
  by (simp add: same_frame_def same_config_def repo_emit_eq collisions_def
        filter_collision_repo_signals)

lemma same_frame_walk:
  "same_frame r0 r \<Longrightarrow> same_frame r0 (fst (populateWalkQueue re d n r))"
  by (rule populate_preserves(1)[where P = "same_frame r0"])
     (simp_all add: same_frame_emit same_frame_queue_push)

text \<open>
  The preparation of the walk of a candidate depends on the tree, the engine, the stack depth
  and the configuration only. A candidate is \<open>settled\<close> in a state when its preparation
  succeeds and either it yields a valid Package whose identifier the index already answers
  for, or it yields an invalid one and the emit of \<open>error\<close> returns.
\<close>

definition outcome ::
  "regexp \<Rightarrow> node \<Rightarrow> nat \<Rightarrow> repository \<Rightarrow> fpath \<Rightarrow> package \<times> js_error option" where
  "outcome re fs depth r file =
     walk_prepare re fs depth (configParseRules (packageDefinition r)) (fresh_package (dir r) file)"

lemma outcome_cong:
  "same_config r r' \<Longrightarrow> outcome re fs depth r' = outcome re fs depth r"
  by (simp add: outcome_def fun_eq_iff same_config_def)

definition settled :: "regexp \<Rightarrow> node \<Rightarrow> nat \<Rightarrow> repository \<Rightarrow> fpath \<Rightarrow> bool" where
  "settled re fs depth r file =
     (snd (outcome re fs depth r file) = None \<and>
      (if isValid (fst (outcome re fs depth r file))
       then has_truthy_entry (packages r) (to_key (guid (fst (outcome re fs depth r file))))
       else handles r))"

lemma has_truthy_entry_update:
  "has_truthy_entry (AList.update k v al) k' = (k' = k \<or> has_truthy_entry al k')"
  by (auto simp: has_truthy_entry_def update_conv')

lemma walkPkgDir_config: "same_config r (fst (walkPkgDir re fs depth file r))"
proof -
  obtain p res where wp: "walk_prepare re fs depth (configParseRules (packageDefinition r))
             (fresh_package (dir r) file) = (p, res)" by force
  show ?thesis
    unfolding walkPkgDir_eq[OF wp] by (simp add: same_config_def split: option.splits)
qed

lemma walkPkgDir_keeps_entries:
  "has_truthy_entry (packages r) k \<Longrightarrow>
   has_truthy_entry (packages (fst (walkPkgDir re fs depth file r))) k"
proof -
  obtain p res where wp: "walk_prepare re fs depth (configParseRules (packageDefinition r))
             (fresh_package (dir r) file) = (p, res)" by force
  show "has_truthy_entry (packages r) k \<Longrightarrow> ?thesis"
    unfolding walkPkgDir_eq[OF wp] by (simp add: has_truthy_entry_update split: option.splits)
qed

lemma error_result:
  "result_of r ''error'' args = (if handles r then None else Some (raised args))"
  by (simp add: repo_result_eq handles_def)

lemma walkPkgDir_settles:
  assumes "snd (walkPkgDir re fs depth file r) = None"
  shows "settled re fs depth (fst (walkPkgDir re fs depth file r)) file"
proof -
  obtain p res where wp: "walk_prepare re fs depth (configParseRules (packageDefinition r))
             (fresh_package (dir r) file) = (p, res)" by force
  have cfg: "same_config r (fst (walkPkgDir re fs depth file r))"
    by (rule walkPkgDir_config)
  have o: "outcome re fs depth (fst (walkPkgDir re fs depth file r)) file = (p, res)"
    using wp outcome_cong[OF cfg, of re fs depth] by (simp add: outcome_def)
  have h: "handles (fst (walkPkgDir re fs depth file r)) = handles r"
    using same_config_params[OF cfg] by simp
  show ?thesis
    using assms unfolding settled_def o h
    unfolding walkPkgDir_eq[OF wp]
    by (auto simp: has_truthy_entry_update error_result split: option.splits if_splits)
qed

lemma walkPkgDir_collides:
  assumes "settled re fs depth r file"
  shows "\<exists>p'. snd (walkPkgDir re fs depth file r)
                = (if handles r then None else Some RepositoryNotUniquePackageError) \<and>
          heap (fst (walkPkgDir re fs depth file r)) = heap r @ [p'] \<and>
          packages (fst (walkPkgDir re fs depth file r)) = packages r \<and>
          invalidPackages (fst (walkPkgDir re fs depth file r)) = invalidPackages r @ [length (heap r)] \<and>
          collisions (fst (walkPkgDir re fs depth file r)) = collisions r + length (filter isValid [p'])"
proof -
  obtain p res where wp: "walk_prepare re fs depth (configParseRules (packageDefinition r))
             (fresh_package (dir r) file) = (p, res)" by force
  have o: "outcome re fs depth r file = (p, res)"
    using wp by (simp add: outcome_def)
  show ?thesis
    using assms unfolding settled_def o
    unfolding walkPkgDir_eq[OF wp]
    by (auto simp: collisions_def filter_collision_repo_signals error_result raised_def nth_arg_def
          split: if_splits)
qed

lemma settled_eq:
  "packages r' = packages r \<Longrightarrow> same_config r r' \<Longrightarrow>
   settled re fs depth r' file = settled re fs depth r file"
  using same_config_params[of r r'] by (simp add: settled_def outcome_cong[of r r'])

lemma settled_same_frame: "same_frame r r' \<Longrightarrow> settled re fs depth r' file = settled re fs depth r file"
  by (rule settled_eq) (simp_all add: same_frame_def)

lemma settled_walkPkgDir:
  assumes "settled re fs depth r file"
  shows "settled re fs depth (fst (walkPkgDir re' fs' depth' file' r)) file"
proof -
  have cfg: "same_config r (fst (walkPkgDir re' fs' depth' file' r))"
    by (rule walkPkgDir_config)
  have "outcome re fs depth (fst (walkPkgDir re' fs' depth' file' r)) = outcome re fs depth r"
    by (rule outcome_cong[OF cfg])
  moreover have "handles (fst (walkPkgDir re' fs' depth' file' r)) = handles r"
    using same_config_params[OF cfg] by simp
  ultimately show ?thesis
    using assms by (auto simp: settled_def intro: walkPkgDir_keeps_entries split: if_splits)
qed

lemma settled_process:
  "settled re fs depth r file \<Longrightarrow> settled re fs depth (fst (processWalkQueue re' fs' depth' r)) file"
proof (rule process_preserves[where P = "\<lambda>r'. settled re fs depth r' file"])
  show "settled re fs depth (fst (snd (queue_next r))) file" if "settled re fs depth r file" for r
    using that by (simp add: settled_same_frame[OF same_frame_queue_next])
qed (simp_all add: settled_walkPkgDir)

lemma queue_next_head:
  "queue (walkQueue r) = file # rest \<Longrightarrow> fst (queue_next r) = Some file"
  by (simp add: queue_next_def Let_def split: prod.splits option.splits)

lemma queue_next_eq:
  assumes "queue (walkQueue r) = f # rest"
  shows "queue_next r = (Some f, fst (snd (queue_next r)), None)"
  using queue_next_head[OF assms] queue_next_returns[of r] by (simp add: prod_eq_iff)

lemma process_settles:
  "snd (processWalkQueue re fs depth r) = None \<Longrightarrow>
   queue (walkQueue (fst (processWalkQueue re fs depth r))) = [] \<and>
   (\<forall>file \<in> set (queue (walkQueue r)).
      settled re fs depth (fst (processWalkQueue re fs depth r)) file)"
proof (induction re fs depth r rule: processWalkQueue.induct)
  case (1 re fs depth r)
  show ?case
  proof (cases "queue (walkQueue r)")
    case Nil
    then show ?thesis by (simp add: processWalkQueue.simps[of _ _ _ r])
  next
    case (Cons f rest)
    define r1 where "r1 = fst (snd (queue_next r))"
    have qn: "queue_next r = (Some f, r1, None)"
      using queue_next_eq[OF Cons] by (simp add: r1_def)
    have q1: "queue (walkQueue r1) = rest"
      using Cons by (simp add: r1_def)
    obtain r2 e where w: "walkPkgDir re fs depth f r1 = (r2, e)" by force
    have un: "processWalkQueue re fs depth r =
              (case e of None \<Rightarrow> processWalkQueue re fs depth r2 | Some err \<Rightarrow> (r2, Some err))"
      using Cons by (simp add: processWalkQueue.simps[of _ _ _ r] qn w split: option.splits)
    have e: "e = None"
      using "1.prems" un by (cases e) simp_all
    have res: "processWalkQueue re fs depth r = processWalkQueue re fs depth r2"
      using un e by simp
    have q2: "queue (walkQueue r2) = rest"
      using walkQueue_walkPkgDir[of re fs depth f r1] w q1 by simp
    have ne: "queue (walkQueue r) \<noteq> []"
      using Cons by simp
    have ih: "queue (walkQueue (fst (processWalkQueue re fs depth r2))) = [] \<and>
              (\<forall>file \<in> set rest. settled re fs depth (fst (processWalkQueue re fs depth r2)) file)"
      using "1.IH"[OF ne qn[symmetric] refl refl refl w[symmetric] e] "1.prems" res q2 by simp
    have "settled re fs depth r2 f"
      using walkPkgDir_settles[of re fs depth f r1] w e by simp
    then have "settled re fs depth (fst (processWalkQueue re fs depth r2)) f"
      by (rule settled_process)
    with ih show ?thesis
      by (simp add: res Cons)
  qed
qed

lemma process_collides:
  "\<forall>file \<in> set (queue (walkQueue r)). settled re fs depth r file \<Longrightarrow>
   \<exists>hs. snd (processWalkQueue re fs depth r)
           = (if handles r \<or> hs = [] then None else Some RepositoryNotUniquePackageError) \<and>
        (hs = [] \<longleftrightarrow> queue (walkQueue r) = []) \<and>
        heap (fst (processWalkQueue re fs depth r)) = heap r @ hs \<and>
        packages (fst (processWalkQueue re fs depth r)) = packages r \<and>
        invalidPackages (fst (processWalkQueue re fs depth r))
          = invalidPackages r @ [length (heap r) ..< length (heap r) + length hs] \<and>
        collisions (fst (processWalkQueue re fs depth r))
          = collisions r + length (filter isValid hs)"
proof (induction re fs depth r rule: processWalkQueue.induct)
  case (1 re fs depth r)
  show ?case
  proof (cases "queue (walkQueue r)")
    case Nil
    then show ?thesis by (simp add: processWalkQueue.simps[of _ _ _ r])
  next
    case (Cons f rest)
    define r1 where "r1 = fst (snd (queue_next r))"
    have qn: "queue_next r = (Some f, r1, None)"
      using queue_next_eq[OF Cons] by (simp add: r1_def)
    have q1: "queue (walkQueue r1) = rest"
      using Cons by (simp add: r1_def)
    have f1: "same_frame r r1"
      unfolding r1_def by (rule same_frame_queue_next)
    have h1: "handles r1 = handles r"
      using same_config_params[of r r1] f1 by (simp add: same_frame_def)
    have s1: "settled re fs depth r1 f"
      using "1.prems" Cons by (simp add: settled_same_frame[OF f1])
    obtain r2 e where w: "walkPkgDir re fs depth f r1 = (r2, e)" by force
    from walkPkgDir_collides[OF s1] w obtain p' where
      e: "e = (if handles r then None else Some RepositoryNotUniquePackageError)"
      and h2: "heap r2 = heap r1 @ [p']" and p2: "packages r2 = packages r1"
      and i2: "invalidPackages r2 = invalidPackages r1 @ [length (heap r1)]"
      and c2: "collisions r2 = collisions r1 + length (filter isValid [p'])"
      unfolding h1 by auto
    have fr: "heap r1 = heap r" "invalidPackages r1 = invalidPackages r" "collisions r1 = collisions r"
      "packages r1 = packages r"
      using f1 by (simp_all add: same_frame_def)
    show ?thesis
    proof (cases "handles r")
      case False
      have res: "processWalkQueue re fs depth r = (r2, Some RepositoryNotUniquePackageError)"
        using Cons False by (simp add: processWalkQueue.simps[of _ _ _ r] qn w e)
      show ?thesis
        by (rule exI[where x = "[p']"])
           (use False Cons in \<open>simp add: res h2 p2 i2 c2 fr\<close>)
    next
      case True
      then have e': "e = None" using e by simp
      have res: "processWalkQueue re fs depth r = processWalkQueue re fs depth r2"
        using Cons by (simp add: processWalkQueue.simps[of _ _ _ r] qn w e')
      have q2: "queue (walkQueue r2) = rest"
        using walkQueue_walkPkgDir[of re fs depth f r1] w q1 by simp
      have c12: "same_config r1 r2"
        using walkPkgDir_config[of r1 re fs depth f] w by simp
      have cfg: "same_config r r2"
        using c12 f1 by (simp add: same_frame_def same_config_def)
      have pk: "packages r2 = packages r"
        using p2 fr by simp
      have hd2: "handles r2"
        using True same_config_params[OF cfg] by simp
      have s2: "\<forall>file \<in> set (queue (walkQueue r2)). settled re fs depth r2 file"
        using "1.prems" Cons q2 by (simp add: settled_eq[OF pk cfg])
      have ne: "queue (walkQueue r) \<noteq> []"
        using Cons by simp
      from "1.IH"[OF ne qn[symmetric] refl refl refl w[symmetric] e' s2]
      obtain hs where
        b: "heap (fst (processWalkQueue re fs depth r2)) = heap r2 @ hs"
        and a: "snd (processWalkQueue re fs depth r2) = None"
        and d: "packages (fst (processWalkQueue re fs depth r2)) = packages r2"
        and i: "invalidPackages (fst (processWalkQueue re fs depth r2))
                  = invalidPackages r2 @ [length (heap r2) ..< length (heap r2) + length hs]"
        and k: "collisions (fst (processWalkQueue re fs depth r2))
                  = collisions r2 + length (filter isValid hs)"
        using hd2 by auto
      have len2: "length (heap r2) = Suc (length (heap r))"
        by (simp add: h2 fr)
      have "[length (heap r) ..< length (heap r) + length (p' # hs)]
            = length (heap r) # [Suc (length (heap r)) ..< length (heap r) + length (p' # hs)]"
        by (rule upt_conv_Cons) simp
      then have upt: "[length (heap r) ..< length (heap r) + length (p' # hs)]
            = length (heap r) # [length (heap r2) ..< length (heap r2) + length hs]"
        by (simp add: len2)
      show ?thesis
      proof (intro exI[where x = "p' # hs"] conjI)
        show "snd (processWalkQueue re fs depth r)
                = (if handles r \<or> p' # hs = [] then None else Some RepositoryNotUniquePackageError)"
          using True by (simp add: res a)
        show "(p' # hs = []) = (queue (walkQueue r) = [])"
          by (simp add: Cons)
        show "heap (fst (processWalkQueue re fs depth r)) = heap r @ p' # hs"
          by (simp add: res b h2 fr)
        show "packages (fst (processWalkQueue re fs depth r)) = packages r"
          by (simp add: res d pk)
        show "invalidPackages (fst (processWalkQueue re fs depth r)) =
              invalidPackages r @ [length (heap r) ..< length (heap r) + length (p' # hs)]"
          unfolding upt by (simp add: res i i2 fr)
        show "collisions (fst (processWalkQueue re fs depth r)) =
              collisions r + length (filter isValid (p' # hs))"
          by (simp add: res k c2 fr)
      qed
    qed
  qed
qed

lemma config_process: "same_config r (fst (processWalkQueue re fs depth r))"
proof (rule process_preserves[where P = "same_config r"])
  show "same_config r (fst (walkPkgDir re fs depth f r'))" if "same_config r r'"
    for re fs depth r' f
    using that walkPkgDir_config[of r' re fs depth f] by (simp add: same_config_def)
qed (simp_all add: same_config_next)

text \<open>
  A scan whose emit of \<open>scanning\<close> returns: the tree walk adds its finds to the queue and
  changes nothing that \<open>same_frame\<close> speaks of; if the walk is rejected so is the scan, and
  otherwise the drain loop runs.
\<close>

lemma scan_unfold:
  assumes "snd (repo_emit ''scanning'' [ARepo] r) = None"
  shows "\<exists>p. same_frame r p \<and>
           queue (walkQueue p) = queue (walkQueue r) @
             fst (tree_walk re (filter_of r) (handles r) (dir r) (node_at fs (dir r))) \<and>
           scan re fs depth r =
             (case snd (tree_walk re (filter_of r) (handles r) (dir r) (node_at fs (dir r))) of
                Some err \<Rightarrow> (p, Some err)
              | None \<Rightarrow> processWalkQueue re fs depth p)"
proof -
  let ?node = "node_at fs (dir r)"
  obtain r1 where s: "repo_emit ''scanning'' [ARepo] r = (r1, None)"
    using assms by (cases "repo_emit ''scanning'' [ARepo] r") simp
  let ?r2 = "queue_once ''emptied'' OnWalkQueueEmptied r1"
  have "same_frame r r1"
    using same_frame_emit[of "''scanning''" "[ARepo]" r r] by (simp add: s)
  then have f2: "same_frame r ?r2"
    unfolding queue_once_def by (rule same_frame_wq)
  have q2: "queue (walkQueue ?r2) = queue (walkQueue r)"
    using walkQueue_repo_emit[of "''scanning''" "[ARepo]" r] by (simp add: queue_once_def s)
  have par: "filter_of ?r2 = filter_of r" "handles ?r2 = handles r" and d2: "dir ?r2 = dir r"
    using same_config_params[of r ?r2] f2 by (simp_all add: same_frame_def same_config_def)
  obtain p res where w: "populateWalkQueue re (dir r) ?node ?r2 = (p, res)" by force
  have fp: "same_frame r p"
    using same_frame_walk[OF f2, of re "dir r" ?node] by (simp add: w)
  have qp: "queue (walkQueue p) = queue (walkQueue r) @
              fst (tree_walk re (filter_of r) (handles r) (dir r) ?node)"
    and res: "res = snd (tree_walk re (filter_of r) (handles r) (dir r) ?node)"
    using populate_walk(1)[of ?r2 re "dir r" ?node] unfolding par by (simp_all add: w q2)
  have "scan re fs depth r =
          (case res of Some err \<Rightarrow> (p, Some err) | None \<Rightarrow> processWalkQueue re fs depth p)"
    by (cases res) (simp_all add: scan_def s Let_def d2 w)
  with fp qp res show ?thesis
    by blast
qed



section \<open>Field extraction with a nested rule group\<close>

lemma parse_group_head:
  "rawConfigContents p \<noteq> Null \<Longrightarrow>
   snd (parse re depth ((property, Group g) # rest) p) = Some RangeError"
proof (induction depth)
  case 0
  show ?case by simp
next
  case (Suc depth)
  obtain p' e where res: "parse re depth ((property, Group g) # rest) p = (p', e)"
    by (cases "parse re depth ((property, Group g) # rest) p")
  with Suc have "e = Some RangeError" by simp
  with res Suc.prems show ?case by simp
qed

text \<open>
  Claim C5 says that a nested rule group is applied recursively to the same raw text and that
  extraction terminates for every rules mapping. The recursive call of \<open>_parse\<close> passes
  \<open>rules\<close> itself, not \<open>rules[property]\<close>: on the rule set \<open>{meta: {name: ...}}\<close> and a
  Package that holds its metadata text, the call never returns normally, whatever the depth
  of the call stack; it ends with the stack exhausted and no field assigned.
\<close>

theorem nested_group_never_extracted:
  "\<forall>depth. snd (parse demo_regexp depth nested_rules
                 ((new_Package [''repo''] [''repo'', ''alpha'', ''README.md''])
                    \<lparr>rawConfigContents := Str alpha_text\<rparr>)) = Some RangeError"
  by (simp add: nested_rules_def parse_group_head)

section \<open>Runs of the model on concrete trees\<close>

text \<open>
  Claim C6 says that after a walk \<open>items\<close> holds every file under the package directory that
  passes the filter. \<open>_search\<close> starts with \<open>this.items = []\<close> on every call, the recursive
  ones included, so descending into a subdirectory discards what was collected before. In the
  tree \<open>nested_listing\<close> the package directory holds \<open>README.md\<close>, \<open>a.txt\<close> and the directory
  \<open>sub\<close> with \<open>b.txt\<close>; \<open>a.txt\<close> is a file and passes the filter, the walk succeeds, and
  \<open>items\<close> ends up as \<open>/sub/b.txt\<close> alone.
\<close>

theorem recursive_listing_loses_files:
  "node_at nested_listing [''repo'', ''alpha'', ''a.txt''] = File ''a'' \<and>
   exec demo_regexp False ''.+'' (render [''repo'', ''alpha'', ''a.txt'']) = Match None \<and>
   snd (scan demo_regexp nested_listing 5 (new_Repository demo_settings)) = None \<and>
   map items (heap (fst (scan demo_regexp nested_listing 5 (new_Repository demo_settings))))
     = [Some [''/sub/b.txt'']]"
  by code_simp

text \<open>
  Claim C4 says that \<open>walk\<close> never fails on filesystem errors: an absent metadata file is a
  no-op and a read error is logged. In the code \<open>doesPathExist\<close> rejects with \<open>false\<close> when
  the file is absent, and nothing catches a failing read, so in both cases the walk is
  rejected (and with it the scan that awaits it).
\<close>

theorem walk_rejects_on_metadata_errors:
  "snd (walkPkgDir demo_regexp absent_metadata 5 [''repo'', ''alpha'', ''README.md'']
          (new_Repository demo_settings)) = Some RejectedFalse \<and>
   snd (walkPkgDir demo_regexp unreadable_metadata 5 [''repo'', ''alpha'', ''README.md'']
          (new_Repository demo_settings)) = Some FsError \<and>
   snd (scan demo_regexp unreadable_metadata 5 (new_Repository demo_settings)) = Some FsError"
  by code_simp

text \<open>
  Claim C8 says that the manager re-emits the package-added signal of a Repository it has
  added. \<open>addRepository\<close> subscribes to \<open>addedPackage\<close> while the Repository emits
  \<open>packageAdded\<close>: after a scan that indexes the package \<open>A1\<close>, the only signal of that name
  in the trace is the Repository's own.
\<close>

theorem manager_never_announces_packages:
  "(case getRepository ''main''
           (fst (scanRepository demo_regexp one_package 5 ''main''
                   (addRepository demo_settings new_PackageManager))) of
      Own r \<Rightarrow>
        packages r = [(''A1'', 0)] \<and>
        filter (\<lambda>(src, event, args). event = ''packageAdded'') (trace r)
          = [(ERepository, ''packageAdded'',
              [AObj [(''repository'', ARepo), (''package'', APkg 0)]])]
    | _ \<Rightarrow> False)"
  by code_simp



end
